theory Spec2Isabelle
  imports Complex_Main "HOL-Library.Word" "HOL-Library.Log_Nat"
begin

unbundle bit_operations_syntax

section \<open>ECMAScript numbers\<close>

text \<open>
  A JavaScript \<^verbatim>\<open>number\<close> is an IEEE 754 binary64 value: NaN, one of the two infinities,
  or a finite dyadic rational.  The model keeps the finite values as exact rationals and
  rounds after every arithmetic operation (round to nearest, ties to even).  The sign of
  a zero is not represented: the program below never divides by a value that can be a
  zero and never inspects the sign of one, so \<open>+0\<close> and \<open>-0\<close> are indistinguishable to it.
\<close>

datatype number = NaN | PosInf | NegInf | Fin rat

subsection \<open>Rounding to nearest, ties to even\<close>

definition round_half_even :: "rat \<Rightarrow> int" where
  "round_half_even x =
     (let f = \<lfloor>x\<rfloor>; d = x - of_int f
      in if d < 1 / 2 then f
         else if 1 / 2 < d then f + 1
         else if even f then f else f + 1)"

text \<open>\<open>ilog2 x\<close> is \<open>\<lfloor>log\<^sub>2 x\<rfloor>\<close> for a positive rational \<open>x\<close>.\<close>

definition ilog2 :: "rat \<Rightarrow> int" where
  "ilog2 x = (if 1 \<le> x then bitlen \<lfloor>x\<rfloor> - 1 else - bitlen (\<lceil>1 / x\<rceil> - 1))"

text \<open>
  \<open>round_to p emin emax x\<close> rounds the rational \<open>x\<close> to the binary format with \<open>p\<close>
  significand bits and exponent range \<open>emin .. emax\<close>: the unit in the last place is
  \<open>2 ^ (e - p + 1)\<close> for the exponent \<open>e\<close> of \<open>x\<close> (not below \<open>emin\<close>, which gives the
  subnormal numbers), and a rounded magnitude of \<open>2 ^ (emax + 1)\<close> or more overflows to an
  infinity.
\<close>

definition round_to :: "nat \<Rightarrow> int \<Rightarrow> int \<Rightarrow> rat \<Rightarrow> number" where
  "round_to p emin emax x =
     (if x = 0 then Fin 0
      else
        let e = max (ilog2 \<bar>x\<bar>) emin;
            u = 2 powi (e - int p + 1);
            r = of_int (round_half_even (\<bar>x\<bar> / u)) * u
        in if 2 powi (emax + 1) \<le> r then (if 0 < x then PosInf else NegInf)
           else Fin (sgn x * r))"

definition rd64 :: "rat \<Rightarrow> number" where
  "rd64 = round_to 53 (- 1022) 1023"

definition rd32 :: "rat \<Rightarrow> number" where
  "rd32 = round_to 24 (- 126) 127"

text \<open>\<^verbatim>\<open>Math.fround\<close>, and the conversion done by every store into a \<^verbatim>\<open>Float32Array\<close>.\<close>

fun fround :: "number \<Rightarrow> number" where
  "fround (Fin x) = rd32 x"
| "fround v = v"

subsection \<open>Arithmetic and comparison operators\<close>

fun js_neg :: "number \<Rightarrow> number" where
  "js_neg NaN = NaN"
| "js_neg PosInf = NegInf"
| "js_neg NegInf = PosInf"
| "js_neg (Fin x) = Fin (- x)"

fun js_add :: "number \<Rightarrow> number \<Rightarrow> number" where
  "js_add NaN _ = NaN"
| "js_add _ NaN = NaN"
| "js_add PosInf NegInf = NaN"
| "js_add NegInf PosInf = NaN"
| "js_add PosInf _ = PosInf"
| "js_add _ PosInf = PosInf"
| "js_add NegInf _ = NegInf"
| "js_add _ NegInf = NegInf"
| "js_add (Fin x) (Fin y) = rd64 (x + y)"

definition js_sub :: "number \<Rightarrow> number \<Rightarrow> number" where
  "js_sub a b = js_add a (js_neg b)"

text \<open>The sign of a number, \<open>0\<close> for NaN and for zero.\<close>

fun js_sign :: "number \<Rightarrow> int" where
  "js_sign NaN = 0"
| "js_sign PosInf = 1"
| "js_sign NegInf = - 1"
| "js_sign (Fin x) = (if 0 < x then 1 else if x < 0 then - 1 else 0)"

definition signed_inf :: "int \<Rightarrow> number" where
  "signed_inf s = (if s = 0 then NaN else if 0 < s then PosInf else NegInf)"

fun js_mul :: "number \<Rightarrow> number \<Rightarrow> number" where
  "js_mul NaN _ = NaN"
| "js_mul _ NaN = NaN"
| "js_mul (Fin x) (Fin y) = rd64 (x * y)"
| "js_mul a b = signed_inf (js_sign a * js_sign b)"

text \<open>
  Division.  A zero divisor is taken as \<open>+0\<close>; every divisor in the program is a length,
  a positive constant, or a value already tested to be greater than zero.
\<close>

fun js_div :: "number \<Rightarrow> number \<Rightarrow> number" where
  "js_div NaN _ = NaN"
| "js_div _ NaN = NaN"
| "js_div (Fin x) (Fin y) = (if y = 0 then signed_inf (js_sign (Fin x)) else rd64 (x / y))"
| "js_div (Fin x) _ = Fin 0"
| "js_div a (Fin y) = signed_inf (js_sign a * (if y < 0 then - 1 else 1))"
| "js_div _ _ = NaN"

fun js_lt :: "number \<Rightarrow> number \<Rightarrow> bool" where
  "js_lt NaN _ = False"
| "js_lt _ NaN = False"
| "js_lt (Fin x) (Fin y) = (x < y)"
| "js_lt NegInf b = (b \<noteq> NegInf)"
| "js_lt a PosInf = (a \<noteq> PosInf)"
| "js_lt _ _ = False"

definition js_gt :: "number \<Rightarrow> number \<Rightarrow> bool" where
  "js_gt a b = js_lt b a"

text \<open>Strict equality \<^verbatim>\<open>===\<close> on numbers: NaN is not equal to itself.\<close>

definition js_eq :: "number \<Rightarrow> number \<Rightarrow> bool" where
  "js_eq a b = (a \<noteq> NaN \<and> a = b)"

definition js_le :: "number \<Rightarrow> number \<Rightarrow> bool" where
  "js_le a b = (js_lt a b \<or> js_eq a b)"

definition js_ge :: "number \<Rightarrow> number \<Rightarrow> bool" where
  "js_ge a b = js_le b a"

text \<open>\<^verbatim>\<open>Number.isFinite\<close>.\<close>

fun isFinite :: "number \<Rightarrow> bool" where
  "isFinite (Fin _) = True"
| "isFinite _ = False"

text \<open>\<^verbatim>\<open>Math.abs\<close>, \<^verbatim>\<open>Math.floor\<close>, \<^verbatim>\<open>Math.max\<close>, \<^verbatim>\<open>Math.min\<close>: all exact.\<close>

fun Math_abs :: "number \<Rightarrow> number" where
  "Math_abs NaN = NaN"
| "Math_abs (Fin x) = Fin \<bar>x\<bar>"
| "Math_abs _ = PosInf"

fun Math_floor :: "number \<Rightarrow> number" where
  "Math_floor (Fin x) = Fin (of_int \<lfloor>x\<rfloor>)"
| "Math_floor v = v"

definition Math_max :: "number \<Rightarrow> number \<Rightarrow> number" where
  "Math_max a b = (if a = NaN \<or> b = NaN then NaN else if js_lt a b then b else a)"

definition Math_min :: "number \<Rightarrow> number \<Rightarrow> number" where
  "Math_min a b = (if a = NaN \<or> b = NaN then NaN else if js_lt b a then b else a)"

subsection \<open>Conversions to integers\<close>

text \<open>Truncation toward zero, as in \<^verbatim>\<open>ToIntegerOrInfinity\<close>.\<close>

definition js_trunc :: "rat \<Rightarrow> int" where
  "js_trunc x = (if 0 \<le> x then \<lfloor>x\<rfloor> else \<lceil>x\<rceil>)"

text \<open>
  \<^verbatim>\<open>ToUint32\<close> and \<^verbatim>\<open>ToInt32\<close> (the operators \<^verbatim>\<open>>>> 0\<close> and \<^verbatim>\<open>| 0\<close>): NaN and the
  infinities give 0, a finite number is truncated and reduced modulo \<open>2 ^ 32\<close>.  Both give
  the same 32 bits; \<open>uint\<close> reads them as \<^verbatim>\<open>ToUint32\<close> does and \<open>sint\<close> as \<^verbatim>\<open>ToInt32\<close>.
\<close>

fun to_bits32 :: "number \<Rightarrow> 32 word" where
  "to_bits32 (Fin x) = word_of_int (js_trunc x)"
| "to_bits32 _ = 0"

datatype error = SampleRateError | RangeError

text \<open>
  \<^verbatim>\<open>ToIndex\<close>, applied by \<^verbatim>\<open>new Float32Array(n)\<close> and \<^verbatim>\<open>new ArrayBuffer(n)\<close> to the
  requested length: NaN is 0, and a length outside \<open>0 .. 2 ^ 53 - 1\<close> throws a RangeError.
  (An engine may also refuse a smaller length for lack of memory; that is not modelled.)
\<close>

fun to_index :: "number \<Rightarrow> error + nat" where
  "to_index NaN = Inr 0"
| "to_index (Fin x) =
     (if js_trunc x < 0 \<or> 9007199254740991 < js_trunc x then Inl RangeError
      else Inr (nat (js_trunc x)))"
| "to_index _ = Inl RangeError"

text \<open>
  \<^verbatim>\<open>new Float32Array(v)\<close>: the length of the new array, or the RangeError thrown instead.
  After \<^verbatim>\<open>ToIndex\<close>, the byte length (4 per element) must not exceed \<open>2 ^ 53 - 1\<close> either.

  These are the bounds that ECMAScript itself imposes.  An engine refuses more: it has
  a smaller maximal array length of its own (on V8 a \<^verbatim>\<open>Float32Array\<close> of \<open>2 ^ 32\<close> elements
  is a RangeError) and it may run out of memory; those refusals are not modelled.  A
  result \<open>Inr n\<close> therefore reads: if the engine grants the allocation, the array has \<open>n\<close>
  elements.  Accordingly, the results below about an arbitrary sample count speak of
  the buffer that is returned, or say only that the call comes to an end (by returning
  or by throwing); that a buffer is returned is stated only for sample counts of at
  most 2 and for concrete requests.
\<close>

definition new_Float32Array_length :: "number \<Rightarrow> error + nat" where
  "new_Float32Array_length v =
     (case to_index v of
        Inl e \<Rightarrow> Inl e
      | Inr n \<Rightarrow> if 9007199254740991 < 4 * n then Inl RangeError else Inr n)"

text \<open>A length or loop counter as a number; exact, since lengths are below \<open>2 ^ 53\<close>.\<close>

definition num_of_nat :: "nat \<Rightarrow> number" where
  "num_of_nat n = Fin (of_nat n)"

subsection \<open>The \<^verbatim>\<open>Math\<close> library\<close>

text \<open>
  ECMAScript fixes \<^verbatim>\<open>Math.sqrt\<close>, \<^verbatim>\<open>Math.log\<close>, \<^verbatim>\<open>Math.cos\<close> and \<^verbatim>\<open>Math.pow\<close> only up
  to an implementation-chosen approximation.  The program is therefore modelled relative
  to a library \<open>M\<close>, and the results below hold for every library unless they say
  otherwise.
\<close>

record mathlib =
  Math_sqrt :: "number \<Rightarrow> number"
  Math_log :: "number \<Rightarrow> number"
  Math_cos :: "number \<Rightarrow> number"
  Math_pow :: "number \<Rightarrow> number \<Rightarrow> number"

text \<open>\<^verbatim>\<open>Math.PI\<close>: the binary64 number nearest to \<open>\<pi>\<close>.\<close>

definition Math_PI :: number where
  "Math_PI = Fin (884279719003555 / 281474976710656)"

section \<open>The noise generator (\<^verbatim>\<open>lib/noise.ts\<close>)\<close>

subsection \<open>Random source\<close>

text \<open>
  \<^verbatim>\<open>createRng(seed)\<close> returns \<^verbatim>\<open>Math.random\<close> when no seed is given, and otherwise a
  closure over the 32-bit state \<open>a\<close> of mulberry32.  The values that \<^verbatim>\<open>Math.random\<close> will
  return, in order, are an input \<open>E\<close> of the model; the generator state is then the number
  of values already drawn.
\<close>

datatype rng = Mulberry32 "32 word" | MathRandom nat

definition createRng :: "number option \<Rightarrow> rng" where
  "createRng seed = (case seed of None \<Rightarrow> MathRandom 0 | Some s \<Rightarrow> Mulberry32 (to_bits32 s))"

text \<open>
  One call of the mulberry32 closure.  \<^verbatim>\<open>Math.imul\<close> and the additions followed by
  \<^verbatim>\<open>| 0\<close> or \<^verbatim>\<open>^\<close> are arithmetic modulo \<open>2 ^ 32\<close>, and \<^verbatim>\<open>>>>\<close> is the logical shift.
\<close>

definition mulberry32 :: "32 word \<Rightarrow> number \<times> 32 word" where
  "mulberry32 a0 =
     (let a = a0 + 0x6D2B79F5;
          t = (a XOR drop_bit 15 a) * (1 OR a);
          t' = (t + (t XOR drop_bit 7 t) * (61 OR t)) XOR t
      in (js_div (Fin (of_int (uint (t' XOR drop_bit 14 t')))) (Fin 4294967296), a))"

fun rng_next :: "(nat \<Rightarrow> number) \<Rightarrow> rng \<Rightarrow> number \<times> rng" where
  "rng_next E (Mulberry32 a) = (case mulberry32 a of (x, a') \<Rightarrow> (x, Mulberry32 a'))"
| "rng_next E (MathRandom k) = (E k, MathRandom (Suc k))"

text \<open>
  The loop \<^verbatim>\<open>while (u === 0) u = rng();\<close> started with \<^verbatim>\<open>u = 0\<close>.  It need not terminate;
  \<open>None\<close> stands for a loop that runs forever.
\<close>

partial_function (option) draw_nonzero :: "(nat \<Rightarrow> number) \<Rightarrow> rng \<Rightarrow> (number \<times> rng) option" where
  "draw_nonzero E g =
     (case rng_next E g of (u, g') \<Rightarrow>
        if js_eq u (Fin 0) then draw_nonzero E g' else Some (u, g'))"

declare draw_nonzero.simps [code]

definition randomGaussian :: "mathlib \<Rightarrow> (nat \<Rightarrow> number) \<Rightarrow> rng \<Rightarrow> (number \<times> rng) option" where
  "randomGaussian M E g =
     (case draw_nonzero E g of None \<Rightarrow> None
      | Some (u, g1) \<Rightarrow>
          (case draw_nonzero E g1 of None \<Rightarrow> None
           | Some (v, g2) \<Rightarrow>
               Some (js_mul (Math_sqrt M (js_mul (Fin (- 2)) (Math_log M u)))
                            (Math_cos M (js_mul (js_mul (Fin 2) Math_PI) v)), g2)))"

subsection \<open>Iteration over a typed array\<close>

text \<open>
  \<^verbatim>\<open>for (let i = 0; i < n; i++) body\<close> on a state \<open>s\<close>, and the same loop with a body that
  may fail to return.  A store \<^verbatim>\<open>data[i] = v\<close> into a \<^verbatim>\<open>Float32Array\<close> is
  \<open>data[i := fround v]\<close>; all indices used below are within the array.
\<close>

definition for_loop :: "nat \<Rightarrow> (nat \<Rightarrow> 's \<Rightarrow> 's) \<Rightarrow> 's \<Rightarrow> 's" where
  "for_loop n body s = fold body [0..<n] s"

definition for_loop_opt :: "nat \<Rightarrow> (nat \<Rightarrow> 's \<Rightarrow> 's option) \<Rightarrow> 's \<Rightarrow> 's option" where
  "for_loop_opt n body s = fold (\<lambda>i r. case r of None \<Rightarrow> None | Some t \<Rightarrow> body i t) [0..<n] (Some s)"

subsection \<open>Detrending, mean removal, RMS\<close>

definition detrendLinearInPlace :: "number list \<Rightarrow> number list" where
  "detrendLinearInPlace data =
     (let n = length data
      in if n < 2 then (if n = 1 then data[0 := Fin 0] else data)
         else
           let a = data ! 0;
               b = data ! (n - 1);
               denom = num_of_nat (n - 1);
               data1 = for_loop n (\<lambda>i d.
                         let li = js_add a (js_div (js_mul (js_sub b a) (num_of_nat i)) denom)
                         in d[i := fround (js_sub (d ! i) li)]) data
           in data1[0 := Fin 0, n - 1 := Fin 0])"

definition removeMeanInPlace :: "number list \<Rightarrow> number list" where
  "removeMeanInPlace data =
     (let n = length data
      in if n = 0 then data
         else
           let sum = for_loop n (\<lambda>i s. js_add s (data ! i)) (Fin 0);
               mean = js_div sum (num_of_nat n)
           in for_loop n (\<lambda>i d. d[i := fround (js_sub (d ! i) mean)]) data)"

definition rms :: "mathlib \<Rightarrow> number list \<Rightarrow> number" where
  "rms M data =
     (let n = length data
      in if n = 0 then Fin 0
         else
           let acc = for_loop n (\<lambda>i acc. let x = data ! i in js_add acc (js_mul x x)) (Fin 0)
           in Math_sqrt M (js_div acc (num_of_nat n)))"

subsection \<open>\<^verbatim>\<open>generateEndpointConstrainedWhiteNoise\<close>\<close>

datatype distribution = gaussian | uniform

text \<open>\<^verbatim>\<open>NoiseOptions\<close>; an optional field that is absent is \<open>None\<close>.\<close>

record NoiseOptions =
  sampleRate :: number
  sampleCount :: number
  distribution :: "distribution option"
  targetRmsDbfs :: "number option"
  zeroEndpoints :: "bool option"
  dcRemoval :: "bool option"
  seed :: "number option"

text \<open>Step 1: fill the fresh array with white noise.\<close>

definition fill_white_noise ::
    "mathlib \<Rightarrow> (nat \<Rightarrow> number) \<Rightarrow> distribution \<Rightarrow> nat \<Rightarrow> rng \<Rightarrow> (number list \<times> rng) option" where
  "fill_white_noise M E d n g =
     (if d = gaussian then
        for_loop_opt n (\<lambda>i (out, g).
          case randomGaussian M E g of None \<Rightarrow> None
          | Some (x, g') \<Rightarrow> Some (out[i := fround x], g')) (replicate n (Fin 0), g)
      else
        for_loop_opt n (\<lambda>i (out, g).
          case rng_next E g of (x, g') \<Rightarrow>
            Some (out[i := fround (js_sub (js_mul x (Fin 2)) (Fin 1))], g')) (replicate n (Fin 0), g))"

text \<open>Step 4: normalise to the target RMS, or silence when the RMS is degenerate.\<close>

definition normalize_rms :: "mathlib \<Rightarrow> number \<Rightarrow> number list \<Rightarrow> number list" where
  "normalize_rms M dbfs out =
     (let n = length out;
          targetRms = Math_pow M (Fin 10) (js_div dbfs (Fin 20));
          currentRms = rms M out
      in if js_gt currentRms (Fin 0) \<and> isFinite currentRms
         then let s = js_div targetRms currentRms
              in for_loop n (\<lambda>i d. d[i := fround (js_mul (d ! i) s)]) out
         else replicate n (Fin 0))"

text \<open>Step 5: rescale by the reciprocal of the peak when the peak exceeds 1.\<close>

definition peak_of :: "number list \<Rightarrow> number" where
  "peak_of out =
     for_loop (length out) (\<lambda>i peak. let ax = Math_abs (out ! i) in if js_gt ax peak then ax else peak)
       (Fin 0)"

definition ensure_no_clip :: "number list \<Rightarrow> number list" where
  "ensure_no_clip out =
     (let n = length out; peak = peak_of out
      in if js_gt peak (Fin 1)
         then let k = js_div (Fin 1) peak
              in for_loop n (\<lambda>i d. d[i := fround (js_mul (d ! i) k)]) out
         else out)"

text \<open>The final statement: the endpoints are assigned 0 again.\<close>

definition reassert_endpoints :: "bool \<Rightarrow> number list \<Rightarrow> number list" where
  "reassert_endpoints ze out =
     (let n = length out
      in if ze \<and> 1 \<le> n
         then let out1 = out[0 := Fin 0] in if 1 < n then out1[n - 1 := Fin 0] else out1
         else out)"

text \<open>
  The destructuring of \<^verbatim>\<open>opts\<close> with its defaults: \<^verbatim>\<open>distribution = 'gaussian'\<close>,
  \<^verbatim>\<open>targetRmsDbfs = -80\<close>, \<^verbatim>\<open>zeroEndpoints = true\<close>, \<^verbatim>\<open>dcRemoval = true\<close>.
\<close>

definition opt_distribution :: "NoiseOptions \<Rightarrow> distribution" where
  "opt_distribution opts = (case distribution opts of None \<Rightarrow> gaussian | Some d \<Rightarrow> d)"

definition opt_targetRmsDbfs :: "NoiseOptions \<Rightarrow> number" where
  "opt_targetRmsDbfs opts = (case targetRmsDbfs opts of None \<Rightarrow> Fin (- 80) | Some t \<Rightarrow> t)"

definition opt_zeroEndpoints :: "NoiseOptions \<Rightarrow> bool" where
  "opt_zeroEndpoints opts = (case zeroEndpoints opts of None \<Rightarrow> True | Some b \<Rightarrow> b)"

definition opt_dcRemoval :: "NoiseOptions \<Rightarrow> bool" where
  "opt_dcRemoval opts = (case dcRemoval opts of None \<Rightarrow> True | Some b \<Rightarrow> b)"

text \<open>
  The buffer as it stands before step 4, that is after filling, detrending and mean
  removal.  \<open>Some (Inl e)\<close> is a thrown error, \<open>None\<close> a call that never returns.  The
  constant \<^verbatim>\<open>n\<close> of the source is NaN (then the array is empty and no loop runs) or the
  length of the array, so the length stands for it.
\<close>

definition shaped_noise :: "mathlib \<Rightarrow> (nat \<Rightarrow> number) \<Rightarrow> NoiseOptions \<Rightarrow> (error + number list) option" where
  "shaped_noise M E opts =
     (if \<not> isFinite (sampleRate opts) \<or> js_le (sampleRate opts) (Fin 0)
      then Some (Inl SampleRateError)
      else
        case new_Float32Array_length (Math_max (Fin 0) (Math_floor (sampleCount opts))) of
          Inl e \<Rightarrow> Some (Inl e)
        | Inr n \<Rightarrow>
            (case fill_white_noise M E (opt_distribution opts) n (createRng (seed opts)) of
               None \<Rightarrow> None
             | Some (out, g) \<Rightarrow>
                 let out1 = (if opt_zeroEndpoints opts then detrendLinearInPlace out else out);
                     out2 = (if opt_dcRemoval opts then removeMeanInPlace out1 else out1)
                 in Some (Inr out2)))"

definition generateEndpointConstrainedWhiteNoise ::
    "mathlib \<Rightarrow> (nat \<Rightarrow> number) \<Rightarrow> NoiseOptions \<Rightarrow> (error + number list) option" where
  "generateEndpointConstrainedWhiteNoise M E opts =
     (case shaped_noise M E opts of
        None \<Rightarrow> None
      | Some (Inl e) \<Rightarrow> Some (Inl e)
      | Some (Inr out) \<Rightarrow>
          Some (Inr (reassert_endpoints (opt_zeroEndpoints opts)
                       (ensure_no_clip (normalize_rms M (opt_targetRmsDbfs opts) out)))))"

section \<open>The PCM and WAV encoder (\<^verbatim>\<open>floatToPCM16\<close>, \<^verbatim>\<open>makeWavBlob\<close>, \<^verbatim>\<open>makeRawPCMBlob\<close>)\<close>

text \<open>
  A store into an \<^verbatim>\<open>Int16Array\<close> keeps the low 16 bits of the integer; \<^verbatim>\<open>| 0\<close> has already
  made the value a 32-bit integer.  The argument is an existing \<^verbatim>\<open>Float32Array\<close>, so the
  \<^verbatim>\<open>Int16Array\<close> of the same length is within the bound on array sizes.
\<close>

definition floatToPCM16 :: "number list \<Rightarrow> 16 word list" where
  "floatToPCM16 float32 =
     (let N = length float32
      in for_loop N (\<lambda>i pcm.
           let v = Math_max (Fin (- 1)) (Math_min (Fin 1) (float32 ! i))
           in pcm[i := ucast (to_bits32 (js_mul v (Fin 32767)))]) (replicate N 0))"

text \<open>
  A \<^verbatim>\<open>DataView\<close> over an \<^verbatim>\<open>ArrayBuffer\<close> is a list of bytes; a write outside it throws a
  RangeError.  All multi-byte writes of the source are little-endian.
\<close>

definition setUint8 :: "8 word list \<Rightarrow> nat \<Rightarrow> 8 word \<Rightarrow> error + 8 word list" where
  "setUint8 buf pos v = (if pos + 1 \<le> length buf then Inr (buf[pos := v]) else Inl RangeError)"

definition setUint16 :: "8 word list \<Rightarrow> nat \<Rightarrow> 16 word \<Rightarrow> error + 8 word list" where
  "setUint16 buf pos v =
     (if pos + 2 \<le> length buf
      then Inr (buf[pos := ucast v, pos + 1 := ucast (drop_bit 8 v)])
      else Inl RangeError)"

definition setUint32 :: "8 word list \<Rightarrow> nat \<Rightarrow> 32 word \<Rightarrow> error + 8 word list" where
  "setUint32 buf pos v =
     (if pos + 4 \<le> length buf
      then Inr (buf[pos := ucast v, pos + 1 := ucast (drop_bit 8 v),
                    pos + 2 := ucast (drop_bit 16 v), pos + 3 := ucast (drop_bit 24 v)])
      else Inl RangeError)"

text \<open>The writer state of \<^verbatim>\<open>makeWavBlob\<close>: the buffer and the variable \<^verbatim>\<open>offset\<close>.\<close>

type_synonym writer = "8 word list \<times> nat"

definition and_then :: "error + 'a \<Rightarrow> ('a \<Rightarrow> error + 'b) \<Rightarrow> error + 'b" where
  "and_then r f = (case r of Inl e \<Rightarrow> Inl e | Inr x \<Rightarrow> f x)"

definition writeString :: "string \<Rightarrow> writer \<Rightarrow> error + writer" where
  "writeString s w =
     and_then
       (for_loop (length s) (\<lambda>i r. and_then r (\<lambda>buf. setUint8 buf (snd w + i) (of_char (s ! i))))
          (Inr (fst w)))
       (\<lambda>buf. Inr (buf, snd w + length s))"

definition writeUint32 :: "number \<Rightarrow> writer \<Rightarrow> error + writer" where
  "writeUint32 v w = and_then (setUint32 (fst w) (snd w) (to_bits32 v)) (\<lambda>buf. Inr (buf, snd w + 4))"

definition writeUint16 :: "number \<Rightarrow> writer \<Rightarrow> error + writer" where
  "writeUint16 v w =
     and_then (setUint16 (fst w) (snd w) (ucast (to_bits32 v))) (\<lambda>buf. Inr (buf, snd w + 2))"

definition makeWavBlob :: "number list \<Rightarrow> number \<Rightarrow> error + 8 word list" where
  "makeWavBlob samples rate =
     (let pcm = floatToPCM16 samples;
          numChannels = Fin 1;
          bitsPerSample = Fin 16;
          byteRate = js_div (js_mul (js_mul rate numChannels) bitsPerSample) (Fin 8);
          blockAlign = js_div (js_mul numChannels bitsPerSample) (Fin 8);
          subchunk2Size = js_mul (num_of_nat (length pcm)) (Fin 2);
          chunkSize = js_add (Fin 36) subchunk2Size
      in and_then (to_index (js_add (Fin 44) subchunk2Size)) (\<lambda>len.
         and_then (writeString ''RIFF'' (replicate len 0, 0)) (\<lambda>w.
         and_then (writeUint32 chunkSize w) (\<lambda>w.
         and_then (writeString ''WAVE'' w) (\<lambda>w.
         and_then (writeString ''fmt '' w) (\<lambda>w.
         and_then (writeUint32 (Fin 16) w) (\<lambda>w.
         and_then (writeUint16 (Fin 1) w) (\<lambda>w.
         and_then (writeUint16 numChannels w) (\<lambda>w.
         and_then (writeUint32 rate w) (\<lambda>w.
         and_then (writeUint32 byteRate w) (\<lambda>w.
         and_then (writeUint16 blockAlign w) (\<lambda>w.
         and_then (writeUint16 bitsPerSample w) (\<lambda>w.
         and_then (writeString ''data'' w) (\<lambda>w.
         and_then (writeUint32 subchunk2Size w) (\<lambda>w.
         and_then
           (for_loop (length pcm) (\<lambda>i r. and_then r (\<lambda>w.
              and_then (setUint16 (fst w) (snd w) (pcm ! i)) (\<lambda>buf. Inr (buf, snd w + 2))))
              (Inr w))
           (\<lambda>w. Inr (fst w)))))))))))))))))"

text \<open>
  \<^verbatim>\<open>new Blob([pcm])\<close> holds the bytes of the \<^verbatim>\<open>Int16Array\<close> in the byte order of the
  platform, taken to be little-endian.
\<close>

definition makeRawPCMBlob :: "number list \<Rightarrow> 8 word list" where
  "makeRawPCMBlob samples =
     (let pcm = floatToPCM16 samples in concat (map (\<lambda>v. [ucast v, ucast (drop_bit 8 v)]) pcm))"

text \<open>The bytes of a 16-bit and of a 32-bit value, low byte first.\<close>

definition le16 :: "16 word \<Rightarrow> 8 word list" where
  "le16 v = [ucast v, ucast (drop_bit 8 v)]"

definition le32 :: "32 word \<Rightarrow> 8 word list" where
  "le32 v = [ucast v, ucast (drop_bit 8 v), ucast (drop_bit 16 v), ucast (drop_bit 24 v)]"

text \<open>Reading a header field back: the unsigned little-endian 32-bit number at \<open>pos\<close>.\<close>

definition getUint32 :: "8 word list \<Rightarrow> nat \<Rightarrow> nat" where
  "getUint32 buf pos =
     unat (buf ! pos) + 256 * unat (buf ! (pos + 1)) + 65536 * unat (buf ! (pos + 2))
       + 16777216 * unat (buf ! (pos + 3))"

section \<open>Specification-level definitions\<close>

text \<open>
  The float-to-int16 mapping in the words of the specification, in exact arithmetic:
  clamp to \<open>[-1, 1]\<close>, scale by 32767, truncate toward zero.  The infinities clamp to
  \<open>\<plusminus>1\<close>; NaN, which has no place in \<open>[-1, 1]\<close>, is given the integer 0.
\<close>

definition clamp_unit :: "rat \<Rightarrow> rat" where
  "clamp_unit x = max (- 1) (min 1 x)"

fun spec_float_to_int16 :: "number \<Rightarrow> 16 word" where
  "spec_float_to_int16 (Fin x) = word_of_int (js_trunc (clamp_unit x * 32767))"
| "spec_float_to_int16 PosInf = word_of_int (js_trunc (1 * 32767))"
| "spec_float_to_int16 NegInf = word_of_int (js_trunc (- 1 * 32767))"
| "spec_float_to_int16 NaN = 0"

text \<open>The values a \<^verbatim>\<open>Float32Array\<close> can hold.\<close>

definition is_float32 :: "number \<Rightarrow> bool" where
  "is_float32 v = (fround v = v)"

section \<open>A reference \<^verbatim>\<open>Math\<close> library\<close>

text \<open>
  One admissible library, for running the model on concrete inputs.  It returns the
  values ECMAScript prescribes for the special arguments, the correctly rounded square
  root, the correctly rounded power for an integral exponent, and elsewhere a truncated
  series rounded to binary64.
\<close>

function isqrt :: "int \<Rightarrow> int" where
  "isqrt n =
     (if n < 1 then 0
      else let r = 2 * isqrt (n div 4) in if (r + 1) * (r + 1) \<le> n then r + 1 else r)"
  by pat_completeness auto
termination
  by (relation "measure nat") auto

definition sqrt_rd64 :: "rat \<Rightarrow> number" where
  "sqrt_rd64 x =
     (if x < 0 then NaN
      else if x = 0 then Fin 0
      else
        let k = 60 - ilog2 x div 2;
            y = x * 4 powi k;
            s = isqrt \<lfloor>y\<rfloor>
        in rd64 ((if of_int (s * s) = y then of_int s else of_int s + 1 / 2) * 2 powi (- k)))"

definition ln2_approx :: rat where
  "ln2_approx = 6243314768165359 / 9007199254740992"

definition log_approx :: "rat \<Rightarrow> rat" where
  "log_approx x =
     (let e = ilog2 x;
          m = x / 2 powi e;
          z = (m - 1) / (m + 1)
      in of_int e * ln2_approx
         + 2 * sum_list (map (\<lambda>i. z ^ (2 * i + 1) / of_nat (2 * i + 1)) [0..<24]))"

definition exp_approx :: "rat \<Rightarrow> rat" where
  "exp_approx x =
     (let k = round_half_even (x / ln2_approx);
          r = x - of_int k * ln2_approx
      in 2 powi k * sum_list (map (\<lambda>i. r ^ i / of_nat (fact i)) [0..<20]))"

definition cos_approx :: "rat \<Rightarrow> rat" where
  "cos_approx x =
     (let tau = 2 * (884279719003555 / 281474976710656);
          r = x - of_int (round_half_even (x / tau)) * tau
      in sum_list (map (\<lambda>i. (- 1) ^ i * r ^ (2 * i) / of_nat (fact (2 * i))) [0..<16]))"

fun ref_sqrt :: "number \<Rightarrow> number" where
  "ref_sqrt (Fin x) = sqrt_rd64 x"
| "ref_sqrt PosInf = PosInf"
| "ref_sqrt _ = NaN"

fun ref_log :: "number \<Rightarrow> number" where
  "ref_log (Fin x) = (if x < 0 then NaN else if x = 0 then NegInf else rd64 (log_approx x))"
| "ref_log PosInf = PosInf"
| "ref_log _ = NaN"

fun ref_cos :: "number \<Rightarrow> number" where
  "ref_cos (Fin x) = rd64 (cos_approx x)"
| "ref_cos _ = NaN"

definition is_odd_integer :: "rat \<Rightarrow> bool" where
  "is_odd_integer y = (of_int \<lfloor>y\<rfloor> = y \<and> odd \<lfloor>y\<rfloor>)"

fun ref_pow :: "number \<Rightarrow> number \<Rightarrow> number" where
  "ref_pow _ NaN = NaN"
| "ref_pow b (Fin y) =
     (if y = 0 then Fin 1
      else case b of
        NaN \<Rightarrow> NaN
      | PosInf \<Rightarrow> (if 0 < y then PosInf else Fin 0)
      | NegInf \<Rightarrow> (if 0 < y then (if is_odd_integer y then NegInf else PosInf) else Fin 0)
      | Fin x \<Rightarrow>
          if x = 0 then (if 0 < y then Fin 0 else PosInf)
          else if of_int \<lfloor>y\<rfloor> = y then rd64 (x powi \<lfloor>y\<rfloor>)
          else if x < 0 then NaN
          else rd64 (exp_approx (y * log_approx x)))"
| "ref_pow b PosInf =
     (if b = NaN then NaN
      else if js_gt (Math_abs b) (Fin 1) then PosInf
      else if Math_abs b = Fin 1 then NaN else Fin 0)"
| "ref_pow b NegInf =
     (if b = NaN then NaN
      else if js_gt (Math_abs b) (Fin 1) then Fin 0
      else if Math_abs b = Fin 1 then NaN else PosInf)"

definition Math_ref :: mathlib where
  "Math_ref = \<lparr>Math_sqrt = ref_sqrt, Math_log = ref_log, Math_cos = ref_cos, Math_pow = ref_pow\<rparr>"

section \<open>Sample inputs\<close>

text \<open>
  The request of the specification's concrete scenario, and a \<^verbatim>\<open>Math.random\<close> that
  returns 0.5 at every call.
\<close>

definition sample_request :: NoiseOptions where
  "sample_request =
     \<lparr>sampleRate = Fin 16000, sampleCount = Fin 100, distribution = Some uniform,
      targetRmsDbfs = Some (Fin (- 60)), zeroEndpoints = None, dcRemoval = None,
      seed = Some (Fin 7)\<rparr>"

text \<open>A one-sample request whose target level is NaN.\<close>

definition nan_target_request :: NoiseOptions where
  "nan_target_request =
     \<lparr>sampleRate = Fin 16000, sampleCount = Fin 1, distribution = Some uniform,
      targetRmsDbfs = Some NaN, zeroEndpoints = Some False, dcRemoval = Some False,
      seed = Some (Fin 7)\<rparr>"

text \<open>
  A one-sample request with a target level of +20 dBFS: the scaled sample has magnitude
  10, so that the clip step has to rescale.
\<close>

definition loud_request :: NoiseOptions where
  "loud_request =
     \<lparr>sampleRate = Fin 16000, sampleCount = Fin 1, distribution = Some uniform,
      targetRmsDbfs = Some (Fin 20), zeroEndpoints = Some False, dcRemoval = Some False,
      seed = Some (Fin 7)\<rparr>"

definition entropy_half :: "nat \<Rightarrow> number" where
  "entropy_half k = Fin (1 / 2)"

section \<open>Properties of rounding\<close>

lemma ilog2_lower: assumes "0 < x" shows "2 powi (ilog2 x) \<le> x"
proof (cases "1 \<le> x")
  case True
  define n where "n = \<lfloor>x\<rfloor>"
  have n1: "1 \<le> n" using True by (simp add: n_def le_floor_iff)
  then have b: "1 \<le> bitlen n" by (simp add: bitlen_ge_iff_power)
  have "2 ^ nat (bitlen n - 1) \<le> n" using bitlen_bounds [of n] n1 by simp
  then have "(2::rat) ^ nat (bitlen n - 1) \<le> of_int n"
    by (metis of_int_le_iff of_int_numeral of_int_power)
  also have "\<dots> \<le> x" by (simp add: n_def)
  finally show ?thesis using True b by (simp add: ilog2_def n_def power_int_def)
next
  case False
  define m where "m = \<lceil>1 / x\<rceil> - 1"
  have y: "1 < 1 / x" using False assms by simp
  then have m1: "1 \<le> m" by (simp add: m_def less_ceiling_iff)
  from m1 have b: "1 \<le> bitlen m" by (simp add: bitlen_ge_iff_power)
  have "m < 2 ^ nat (bitlen m)" using bitlen_bounds [of m] m1 by simp
  then have "m + 1 \<le> 2 ^ nat (bitlen m)" by simp
  then have "(of_int (m + 1) :: rat) \<le> 2 ^ nat (bitlen m)"
    by (metis of_int_le_iff of_int_numeral of_int_power)
  moreover have "1 / x \<le> of_int (m + 1)" by (simp add: m_def)
  ultimately have "1 / x \<le> 2 ^ nat (bitlen m)" by linarith
  then have "1 / 2 ^ nat (bitlen m) \<le> x" using assms
    by (simp add: field_simps)
  then show ?thesis using False b
    by (simp add: ilog2_def m_def [symmetric] power_int_def field_simps)
qed

lemma ilog2_upper: assumes "0 < x" shows "x < 2 powi (ilog2 x + 1)"
proof (cases "1 \<le> x")
  case True
  define n where "n = \<lfloor>x\<rfloor>"
  have n1: "1 \<le> n" using True by (simp add: n_def le_floor_iff)
  then have b: "1 \<le> bitlen n" by (simp add: bitlen_ge_iff_power)
  have "n < 2 ^ nat (bitlen n)" using bitlen_bounds [of n] n1 by simp
  then have "n + 1 \<le> 2 ^ nat (bitlen n)" by simp
  then have "(of_int (n + 1) :: rat) \<le> 2 ^ nat (bitlen n)"
    by (metis of_int_le_iff of_int_numeral of_int_power)
  moreover have "x < of_int (n + 1)" using floor_correct [of x] by (simp add: n_def)
  ultimately have "x < 2 ^ nat (bitlen n)" by linarith
  then show ?thesis using True b by (simp add: ilog2_def n_def [symmetric] power_int_def)
next
  case False
  define m where "m = \<lceil>1 / x\<rceil> - 1"
  have y: "1 < 1 / x" using False assms by simp
  then have m1: "1 \<le> m" by (simp add: m_def less_ceiling_iff)
  then have b: "1 \<le> bitlen m" by (simp add: bitlen_ge_iff_power)
  have "2 ^ nat (bitlen m - 1) \<le> m" using bitlen_bounds [of m] m1 by simp
  then have "(2::rat) ^ nat (bitlen m - 1) \<le> of_int m"
    by (metis of_int_le_iff of_int_numeral of_int_power)
  moreover have "of_int m < 1 / x" using ceiling_correct [of "1 / x"] by (simp add: m_def)
  ultimately have "2 ^ nat (bitlen m - 1) < 1 / x" by linarith
  then have "x < 1 / 2 ^ nat (bitlen m - 1)" using assms
    by (simp add: field_simps)
  moreover have "- bitlen m + 1 \<le> 0" using b by simp
  moreover have "nat (- (- bitlen m + 1)) = nat (bitlen m - 1)" by simp
  ultimately show ?thesis using False b 
    by (simp add: ilog2_def m_def [symmetric] power_int_def field_simps)
qed

lemma ilog2_less: assumes "0 < x" "x < 2 powi k" shows "ilog2 x < k"
proof -
  have "(2::rat) powi ilog2 x < 2 powi k" using ilog2_lower [OF assms(1)] assms(2) by simp
  then show ?thesis by (metis linorder_not_less one_le_numeral power_int_increasing)
qed

lemma ilog2_ge: assumes "0 < x" "2 powi k \<le> x" shows "k \<le> ilog2 x"
proof -
  have "(2::rat) powi k < 2 powi (ilog2 x + 1)" using ilog2_upper [OF assms(1)] assms(2) by simp
  then have "k < ilog2 x + 1" by (metis linorder_not_less one_le_numeral power_int_increasing)
  then show ?thesis by simp
qed

lemma round_half_even_of_int: "round_half_even (of_int k) = k"
  by (simp add: round_half_even_def)

lemma round_half_even_error: "\<bar>of_int (round_half_even x) - x\<bar> \<le> 1 / 2"
proof -
  have "of_int \<lfloor>x\<rfloor> \<le> x" "x < of_int \<lfloor>x\<rfloor> + 1" by linarith+
  then show ?thesis by (auto simp: round_half_even_def Let_def)
qed

lemma round_half_even_le: assumes "x \<le> of_int k" shows "round_half_even x \<le> k"
proof -
  have f: "of_int \<lfloor>x\<rfloor> \<le> x" by linarith
  show ?thesis
  proof (cases "x = of_int k")
    case True then show ?thesis by (simp add: round_half_even_of_int)
  next
    case False
    with assms have "x < of_int k" by simp
    then have "\<lfloor>x\<rfloor> < k" by (simp add: floor_less_iff)
    then show ?thesis by (auto simp: round_half_even_def Let_def)
  qed
qed

lemma round_half_even_nonneg: "0 \<le> x \<Longrightarrow> 0 \<le> round_half_even x"
  by (auto simp: round_half_even_def Let_def)

lemma two_powi_nat: "0 \<le> e \<Longrightarrow> (2::rat) powi e = of_int (2 ^ nat e)"
  by (simp add: power_int_def)

lemma round_to_exact:
  assumes x: "x = of_int m * 2 powi e"
    and m: "\<bar>m\<bar> < 2 ^ p"
    and e: "emin - int p + 1 \<le> e"
    and ov: "\<bar>x\<bar> < 2 powi (emax + 1)"
  shows "round_to p emin emax x = Fin x"
proof (cases "x = 0")
  case True then show ?thesis by (simp add: round_to_def)
next
  case False
  define E where "E = max (ilog2 \<bar>x\<bar>) emin"
  define q where "q = E - int p + 1"
  have pos: "0 < \<bar>x\<bar>" using False by simp
  have "\<bar>x\<bar> = of_int \<bar>m\<bar> * 2 powi e" by (simp add: x abs_mult)
  also have "\<dots> < of_int (2 ^ p) * 2 powi e"
    using m by (intro mult_strict_right_mono) (simp_all del: of_int_power)
  also have "\<dots> = 2 powi (int p + e)" by (simp add: power_int_add)
  finally have "\<bar>x\<bar> < 2 powi (int p + e)" .
  with ilog2_lower [OF pos] have "(2::rat) powi ilog2 \<bar>x\<bar> < 2 powi (int p + e)" by simp
  then have "ilog2 \<bar>x\<bar> < int p + e"
    by (metis linorder_not_less one_le_numeral power_int_increasing)
  with e have qe: "q \<le> e" by (simp add: q_def E_def)
  have "\<bar>x\<bar> / 2 powi q = of_int \<bar>m\<bar> * (2 powi e / 2 powi q)" by (simp add: x abs_mult)
  also have "2 powi e / (2::rat) powi q = 2 powi (e - q)" by (simp add: power_int_diff)
  also have "\<dots> = of_int (2 ^ nat (e - q))" using qe by (simp add: two_powi_nat)
  finally have quot: "\<bar>x\<bar> / 2 powi q = of_int (\<bar>m\<bar> * 2 ^ nat (e - q))" by simp
  have r: "of_int (round_half_even (\<bar>x\<bar> / 2 powi q)) * 2 powi q = \<bar>x\<bar>"
    unfolding quot round_half_even_of_int unfolding quot [symmetric] by simp
  have "sgn x * \<bar>x\<bar> = x" by (rule sgn_mult_abs)
  then show ?thesis using False ov r
    by (simp add: round_to_def Let_def E_def [symmetric] q_def [symmetric])
qed

lemma rd64_dyadic:
  assumes "x = of_int m * 2 powi e" "\<bar>m\<bar> < 2 ^ 53" "- 1074 \<le> e" "\<bar>x\<bar> < 2 powi 1024"
  shows "rd64 x = Fin x"
  unfolding rd64_def using assms by (intro round_to_exact [of x m e]) simp_all

lemma rd64_of_int: assumes "\<bar>k\<bar> < 2 ^ 53" shows "rd64 (of_int k) = Fin (of_int k)"
proof (rule rd64_dyadic [of _ k 0])
  have "\<bar>rat_of_int k\<bar> < of_int (2 ^ 53)" using assms unfolding of_int_abs [symmetric] of_int_less_iff by simp
  then show "\<bar>rat_of_int k\<bar> < 2 powi 1024" by simp
qed (use assms in simp_all)

lemma js_div_u32:
  "js_div (Fin (of_int (uint (w :: 32 word)))) (Fin 4294967296) = Fin (of_int (uint w) / 4294967296)"
proof -
  have "rd64 (of_int (uint w) / 4294967296) = Fin (of_int (uint w) / 4294967296)"
  proof (rule rd64_dyadic [of _ "uint w" "- 32"])
    have u: "0 \<le> uint w" "uint w < 2 ^ 32" using uint_bounded [of w] by simp_all
    then show "\<bar>uint w\<bar> < 2 ^ 53" by simp
    have "\<bar>rat_of_int (uint w) / 4294967296\<bar> \<le> \<bar>rat_of_int (uint w)\<bar>" by (simp add: field_simps)
    also have "\<dots> < of_int (2 ^ 32)" using u unfolding of_int_abs [symmetric] of_int_less_iff by simp
    finally show "\<bar>rat_of_int (uint w) / 4294967296\<bar> < 2 powi 1024" by simp
    show "rat_of_int (uint w) / 4294967296 = rat_of_int (uint w) * 2 powi - 32"
      by (simp add: power_int_def power_divide)
    show "- 1074 \<le> (- 32 :: int)" by simp
  qed
  then show ?thesis by simp
qed

lemma mulberry32_value:
  "mulberry32 a0 =
     (let a = a0 + 0x6D2B79F5;
          t = (a XOR drop_bit 15 a) * (1 OR a);
          t' = (t + (t XOR drop_bit 7 t) * (61 OR t)) XOR t
      in (Fin (of_int (uint (t' XOR drop_bit 14 t')) / 4294967296), a))"
  unfolding mulberry32_def js_div_u32 ..

section \<open>The seeded generator never stalls\<close>

lemma word_mult_odd_eq_0:
  fixes x y :: "32 word"
  assumes "odd y" "x * y = 0"
  shows "x = 0"
proof -
  have "word_of_int (uint x * uint y) = (0 :: 32 word)" using assms(2) by simp
  then have d: "2 ^ 32 dvd uint x * uint y" unfolding word_of_int_eq_0_iff by simp
  have "bit y 0" using assms(1) by (simp add: bit_0)
  then have "bit (uint y) 0" by (simp add: bit_uint_iff)
  then have "odd (uint y)" by (simp add: bit_0)
  then have "coprime ((2::int) ^ 32) (uint y)"
    unfolding coprime_power_left_iff coprime_left_2_iff_odd by simp
  with d have "2 ^ 32 dvd uint x" by (simp add: coprime_dvd_mult_left_iff)
  moreover have "0 \<le> uint x" "uint x < 2 ^ 32" using uint_bounded [of x] by simp_all
  ultimately have "\<not> 0 < uint x" using zdvd_not_zless [of "uint x" "2 ^ 32"] by auto
  then have "uint x = 0" using uint_ge_0 [of x] by linarith
  then show ?thesis by (simp add: uint_0_iff)
qed

lemma word_xor_eq_0_iff: "a XOR b = 0 \<longleftrightarrow> a = b" for a b :: "32 word"
  by (metis bit.xor_left_self word_bw_same(3))

lemma xor_shift_eq_0:
  fixes x :: "32 word"
  assumes "0 < n" "x XOR drop_bit n x = 0"
  shows "x = 0"
proof -
  have "x = drop_bit n x" using assms(2) by (simp add: word_xor_eq_0_iff)
  then have "unat x = unat x div 2 ^ n" by (metis drop_bit_eq_div unat_drop_bit_eq)
  moreover have "unat x div 2 ^ n < unat x" if "0 < unat x"
    using that assms(1) by (intro div_less_dividend one_less_power) simp_all
  ultimately have "unat x = 0" by (cases "unat x = 0") auto
  then show ?thesis by (simp add: unat_eq_0)
qed

lemma mulberry32_zero_iff:
  "js_eq (fst (mulberry32 a)) (Fin 0) \<longleftrightarrow> snd (mulberry32 a) = 0"
proof -
  define b where "b = a + 0x6D2B79F5"
  define t where "t = (b XOR drop_bit 15 b) * (1 OR b)"
  define t' where "t' = (t + (t XOR drop_bit 7 t) * (61 OR t)) XOR t"
  define w where "w = t' XOR drop_bit 14 t'"
  have v: "mulberry32 a = (Fin (of_int (uint w) / 4294967296), b)"
    by (simp add: mulberry32_value Let_def b_def t_def t'_def w_def)
  have o1: "odd (1 OR b)" by (simp add: even_or_iff)
  have o2: "odd (61 OR t)" by (simp add: even_or_iff)
  have "w = 0 \<longleftrightarrow> t' = 0" using xor_shift_eq_0 [of 14 t'] by (auto simp: w_def)
  also have "t' = 0 \<longleftrightarrow> (t XOR drop_bit 7 t) * (61 OR t) = 0"
  proof -
    have "t' = 0 \<longleftrightarrow> t + (t XOR drop_bit 7 t) * (61 OR t) = t"
      unfolding t'_def by (rule word_xor_eq_0_iff)
    then show ?thesis by simp
  qed
  also have "\<dots> \<longleftrightarrow> t XOR drop_bit 7 t = 0" using word_mult_odd_eq_0 [OF o2] by auto
  also have "\<dots> \<longleftrightarrow> t = 0" using xor_shift_eq_0 [of 7 t] by auto
  also have "\<dots> \<longleftrightarrow> b XOR drop_bit 15 b = 0" using word_mult_odd_eq_0 [OF o1] by (auto simp: t_def)
  also have "\<dots> \<longleftrightarrow> b = 0" using xor_shift_eq_0 [of 15 b] by auto
  finally have "w = 0 \<longleftrightarrow> b = 0" .
  moreover have "js_eq (Fin (of_int (uint w) / 4294967296)) (Fin 0) \<longleftrightarrow> w = 0"
    by (simp add: js_eq_def unsigned_eq_0_iff)
  ultimately show ?thesis by (simp add: v)
qed

lemma snd_mulberry32: "snd (mulberry32 a) = a + 0x6D2B79F5"
  by (simp add: mulberry32_def Let_def)

lemma rng_next_seeded:
  "rng_next E (Mulberry32 a) = (fst (mulberry32 a), Mulberry32 (a + 0x6D2B79F5))"
  by (simp add: split_beta snd_mulberry32)

lemma draw_nonzero_seeded:
  "\<exists>u a'. draw_nonzero E (Mulberry32 a) = Some (u, Mulberry32 a')"
proof (cases "a + 0x6D2B79F5 = 0")
  case False
  then have "\<not> js_eq (fst (mulberry32 a)) (Fin 0)"
    by (simp add: mulberry32_zero_iff snd_mulberry32)
  then show ?thesis
    by (subst draw_nonzero.simps) (simp add: rng_next_seeded del: rng_next.simps)
next
  case True
  then have z: "js_eq (fst (mulberry32 a)) (Fin 0)"
    by (simp add: mulberry32_zero_iff snd_mulberry32)
  have "a + 0x6D2B79F5 + 0x6D2B79F5 \<noteq> 0" using True by simp
  then have "\<not> js_eq (fst (mulberry32 (a + 0x6D2B79F5))) (Fin 0)"
    by (simp add: mulberry32_zero_iff snd_mulberry32)
  then have "draw_nonzero E (Mulberry32 (a + 0x6D2B79F5))
      = Some (fst (mulberry32 (a + 0x6D2B79F5)), Mulberry32 (a + 0x6D2B79F5 + 0x6D2B79F5))"
    by (subst draw_nonzero.simps) (simp add: rng_next_seeded del: rng_next.simps)
  with z show ?thesis
    by (subst draw_nonzero.simps) (simp add: rng_next_seeded del: rng_next.simps)
qed

lemma randomGaussian_seeded:
  "\<exists>x a'. randomGaussian M E (Mulberry32 a) = Some (x, Mulberry32 a')"
proof -
  obtain u a1 where 1: "draw_nonzero E (Mulberry32 a) = Some (u, Mulberry32 a1)"
    using draw_nonzero_seeded by blast
  obtain v a2 where 2: "draw_nonzero E (Mulberry32 a1) = Some (v, Mulberry32 a2)"
    using draw_nonzero_seeded by blast
  show ?thesis by (simp add: randomGaussian_def 1 2)
qed

section \<open>Loop rules\<close>

lemma for_loop_Suc: "for_loop (Suc n) body s = body n (for_loop n body s)"
  by (simp add: for_loop_def)

lemma for_loop_0: "for_loop 0 body s = s"
  by (simp add: for_loop_def)

lemma for_loop_opt_Suc:
  "for_loop_opt (Suc n) body s = (case for_loop_opt n body s of None \<Rightarrow> None | Some t \<Rightarrow> body n t)"
  by (simp add: for_loop_opt_def)

lemma for_loop_opt_0: "for_loop_opt 0 body s = Some s"
  by (simp add: for_loop_opt_def)

lemma for_loop_invariant:
  assumes "I s" and "\<And>i t. i < n \<Longrightarrow> I t \<Longrightarrow> I (body i t)"
  shows "I (for_loop n body s)"
  using assms(2)
proof (induction n)
  case 0
  show ?case by (simp add: for_loop_0 assms(1))
next
  case (Suc n)
  then show ?case by (simp add: for_loop_Suc)
qed

lemma for_loop_opt_total:
  assumes "I s" and "\<And>i t. i < n \<Longrightarrow> I t \<Longrightarrow> \<exists>t'. body i t = Some t' \<and> I t'"
  shows "\<exists>t. for_loop_opt n body s = Some t \<and> I t"
  using assms(2)
proof (induction n)
  case 0
  show ?case by (simp add: for_loop_opt_0 assms(1))
next
  case (Suc n)
  then obtain t where t: "for_loop_opt n body s = Some t" "I t"
    by (metis less_Suc_eq)
  with Suc.prems [of n t] show ?case by (simp add: for_loop_opt_Suc)
qed

lemma for_loop_opt_invariant:
  assumes "for_loop_opt n body s = Some r" and "I s"
    and "\<And>i t t'. i < n \<Longrightarrow> I t \<Longrightarrow> body i t = Some t' \<Longrightarrow> I t'"
  shows "I r"
  using assms(1,3)
proof (induction n arbitrary: r)
  case 0
  then show ?case using assms(2) by (simp add: for_loop_opt_0)
next
  case (Suc n)
  from Suc.prems(1) obtain t where t: "for_loop_opt n body s = Some t" "body n t = Some r"
    by (auto simp: for_loop_opt_Suc split: option.splits)
  have "I t" using Suc.IH [OF t(1)] Suc.prems(2) by (metis less_Suc_eq)
  then show ?case using Suc.prems(2) [of n t r] t(2) by simp
qed

section \<open>Lengths\<close>

lemma length_for_loop_update [simp]:
  "length (for_loop n (\<lambda>i d. d[i := f i d]) data) = length data"
  by (rule for_loop_invariant [where I = "\<lambda>d. length d = length data"]) simp_all

lemma length_detrendLinearInPlace [simp]: "length (detrendLinearInPlace data) = length data"
  by (simp add: detrendLinearInPlace_def Let_def)

lemma length_removeMeanInPlace [simp]: "length (removeMeanInPlace data) = length data"
  by (simp add: removeMeanInPlace_def Let_def)

lemma length_normalize_rms [simp]: "length (normalize_rms M t out) = length out"
  by (simp add: normalize_rms_def Let_def)

lemma length_ensure_no_clip [simp]: "length (ensure_no_clip out) = length out"
  by (simp add: ensure_no_clip_def Let_def)

lemma length_reassert_endpoints [simp]: "length (reassert_endpoints ze out) = length out"
  by (simp add: reassert_endpoints_def Let_def)

lemma for_loop_opt_length:
  assumes "for_loop_opt n body (out0, g0) = Some (out, g)"
    and "\<And>i o1 g1 o2 g2. body i (o1, g1) = Some (o2, g2) \<Longrightarrow> length o2 = length o1"
  shows "length out = length out0"
proof -
  have "(\<lambda>(out, g). length out = length out0) (out, g)"
    by (rule for_loop_opt_invariant [OF assms(1)]) (use assms(2) in auto)
  then show ?thesis by simp
qed

lemma fill_white_noise_length:
  assumes "fill_white_noise M E d n g = Some (out, g')"
  shows "length out = n"
proof (cases "d = gaussian")
  case True
  let ?body = "\<lambda>(i::nat) (out, g). case randomGaussian M E g of None \<Rightarrow> None
                | Some (x, g') \<Rightarrow> Some (out[i := fround x], g')"
  from assms True have A: "for_loop_opt n ?body (replicate n (Fin 0), g) = Some (out, g')"
    by (simp add: fill_white_noise_def)
  have "length out = length (replicate n (Fin 0))"
    by (rule for_loop_opt_length [OF A]) (auto split: option.splits)
  then show ?thesis by simp
next
  case False
  let ?body = "\<lambda>(i::nat) (out, g). case rng_next E g of (x, g') \<Rightarrow>
            Some (out[i := fround (js_sub (js_mul x (Fin 2)) (Fin 1))], g')"
  from assms False have A: "for_loop_opt n ?body (replicate n (Fin 0), g) = Some (out, g')"
    by (simp add: fill_white_noise_def)
  have "length out = length (replicate n (Fin 0))"
    by (rule for_loop_opt_length [OF A]) (auto split: prod.splits)
  then show ?thesis by simp
qed

lemma fill_white_noise_seeded:
  "\<exists>out a'. fill_white_noise M E d n (Mulberry32 a) = Some (out, Mulberry32 a')"
proof -
  let ?I = "\<lambda>(out :: number list, g). \<exists>a'. g = Mulberry32 a'"
  show ?thesis
  proof (cases "d = gaussian")
    case True
    let ?body = "\<lambda>(i::nat) (out, g). case randomGaussian M E g of None \<Rightarrow> None
                  | Some (x, g') \<Rightarrow> Some (out[i := fround x], g')"
    have "\<exists>t. for_loop_opt n ?body (replicate n (Fin 0), Mulberry32 a) = Some t \<and> ?I t"
    proof (rule for_loop_opt_total [where I = ?I], goal_cases)
      case 1 show ?case by simp
    next
      case (2 i t)
      then obtain o1 a1 where t: "t = (o1, Mulberry32 a1)" by (cases t) auto
      obtain x a2 where "randomGaussian M E (Mulberry32 a1) = Some (x, Mulberry32 a2)"
        using randomGaussian_seeded by blast
      then show ?case by (simp add: t)
    qed
    with True show ?thesis by (auto simp: fill_white_noise_def)
  next
    case False
    let ?body = "\<lambda>(i::nat) (out, g). case rng_next E g of (x, g') \<Rightarrow>
              Some (out[i := fround (js_sub (js_mul x (Fin 2)) (Fin 1))], g')"
    have "\<exists>t. for_loop_opt n ?body (replicate n (Fin 0), Mulberry32 a) = Some t \<and> ?I t"
    proof (rule for_loop_opt_total [where I = ?I], goal_cases)
      case 1 show ?case by simp
    next
      case (2 i t)
      then obtain o1 a1 where t: "t = (o1, Mulberry32 a1)" by (cases t) auto
      show ?case by (simp add: t rng_next_seeded del: rng_next.simps)
    qed
    with False show ?thesis by (auto simp: fill_white_noise_def)
  qed
qed

lemma fill_white_noise_uniform:
  "\<exists>out g'. fill_white_noise M E uniform n g = Some (out, g')"
proof -
  let ?body = "\<lambda>(i::nat) (out, g). case rng_next E g of (x, g') \<Rightarrow>
            Some (out[i := fround (js_sub (js_mul x (Fin 2)) (Fin 1))], g')"
  have "\<exists>t. for_loop_opt n ?body (replicate n (Fin 0), g) = Some t \<and> True"
    by (rule for_loop_opt_total [where I = "\<lambda>_. True"]) (auto split: prod.splits)
  then show ?thesis by (auto simp: fill_white_noise_def)
qed

section \<open>The shape of a call\<close>

lemma to_index_not_SampleRateError: "to_index v \<noteq> Inl SampleRateError"
  by (cases v) simp_all

lemma new_Float32Array_length_not_SampleRateError:
  "new_Float32Array_length v \<noteq> Inl SampleRateError"
  using to_index_not_SampleRateError [of v]
  by (auto simp: new_Float32Array_length_def split: sum.splits)

lemma shaped_noise_Inl:
  "shaped_noise M E opts = Some (Inl SampleRateError)
     \<longleftrightarrow> \<not> isFinite (sampleRate opts) \<or> js_le (sampleRate opts) (Fin 0)"
  using new_Float32Array_length_not_SampleRateError [of "Math_max (Fin 0) (Math_floor (sampleCount opts))"]
  by (auto simp: shaped_noise_def Let_def split: sum.splits option.splits prod.splits)

lemma generate_Inl:
  "generateEndpointConstrainedWhiteNoise M E opts = Some (Inl e) \<longleftrightarrow> shaped_noise M E opts = Some (Inl e)"
  by (auto simp: generateEndpointConstrainedWhiteNoise_def split: option.splits sum.splits)

lemma generate_Inr:
  "generateEndpointConstrainedWhiteNoise M E opts = Some (Inr out) \<longleftrightarrow>
     (\<exists>buf. shaped_noise M E opts = Some (Inr buf) \<and>
        out = reassert_endpoints (opt_zeroEndpoints opts)
                (ensure_no_clip (normalize_rms M (opt_targetRmsDbfs opts) buf)))"
  by (auto simp: generateEndpointConstrainedWhiteNoise_def split: option.splits sum.splits)

lemma shaped_noise_Inr_length:
  assumes "shaped_noise M E opts = Some (Inr buf)"
  shows "new_Float32Array_length (Math_max (Fin 0) (Math_floor (sampleCount opts))) = Inr (length buf)"
  using assms fill_white_noise_length
  by (fastforce simp: shaped_noise_def Let_def split: sum.splits option.splits prod.splits if_splits)

lemma generate_Inr_length:
  assumes "generateEndpointConstrainedWhiteNoise M E opts = Some (Inr out)"
  shows "new_Float32Array_length (Math_max (Fin 0) (Math_floor (sampleCount opts))) = Inr (length out)"
  using assms shaped_noise_Inr_length by (auto simp: generate_Inr)

lemma requested_length_nat:
  "new_Float32Array_length (Math_max (Fin 0) (Math_floor (num_of_nat N))) =
     (if N \<le> 2251799813685247 then Inr N else Inl RangeError)"
  by (auto simp: new_Float32Array_length_def num_of_nat_def Math_max_def js_trunc_def)

lemma shaped_noise_returns:
  assumes "isFinite (sampleRate opts)" "\<not> js_le (sampleRate opts) (Fin 0)"
    and "new_Float32Array_length (Math_max (Fin 0) (Math_floor (sampleCount opts))) = Inr n"
    and "seed opts \<noteq> None \<or> opt_distribution opts = uniform"
  shows "\<exists>buf. shaped_noise M E opts = Some (Inr buf)"
proof -
  have "\<exists>out g'. fill_white_noise M E (opt_distribution opts) n (createRng (seed opts)) = Some (out, g')"
  proof (cases "seed opts")
    case None
    with assms(4) show ?thesis using fill_white_noise_uniform by simp
  next
    case (Some s)
    obtain out a' where "fill_white_noise M E (opt_distribution opts) n (Mulberry32 (to_bits32 s))
        = Some (out, Mulberry32 a')"
      using fill_white_noise_seeded by blast
    with Some show ?thesis by (simp add: createRng_def)
  qed
  then show ?thesis using assms(1-3) by (auto simp: shaped_noise_def Let_def)
qed

lemma generate_returns:
  assumes "isFinite (sampleRate opts)" "\<not> js_le (sampleRate opts) (Fin 0)"
    and "new_Float32Array_length (Math_max (Fin 0) (Math_floor (sampleCount opts))) = Inr n"
    and "seed opts \<noteq> None \<or> opt_distribution opts = uniform"
  shows "\<exists>out. generateEndpointConstrainedWhiteNoise M E opts = Some (Inr out)"
  using shaped_noise_returns [OF assms] by (auto simp: generate_Inr)

section \<open>A seeded call does not consult \<^verbatim>\<open>Math.random\<close>\<close>

lemma draw_nonzero_seeded_eq:
  "draw_nonzero E (Mulberry32 a) =
     Some (if a + 0x6D2B79F5 \<noteq> 0 then (fst (mulberry32 a), Mulberry32 (a + 0x6D2B79F5))
           else (fst (mulberry32 (a + 0x6D2B79F5)), Mulberry32 (a + 0x6D2B79F5 + 0x6D2B79F5)))"
proof (cases "a + 0x6D2B79F5 = 0")
  case False
  then have "\<not> js_eq (fst (mulberry32 a)) (Fin 0)"
    by (simp add: mulberry32_zero_iff snd_mulberry32)
  with False show ?thesis
    by (subst draw_nonzero.simps) (simp add: rng_next_seeded del: rng_next.simps)
next
  case True
  then have z: "js_eq (fst (mulberry32 a)) (Fin 0)"
    by (simp add: mulberry32_zero_iff snd_mulberry32)
  have "a + 0x6D2B79F5 + 0x6D2B79F5 \<noteq> 0" using True by simp
  then have "\<not> js_eq (fst (mulberry32 (a + 0x6D2B79F5))) (Fin 0)"
    by (simp add: mulberry32_zero_iff snd_mulberry32)
  then have "draw_nonzero E (Mulberry32 (a + 0x6D2B79F5))
      = Some (fst (mulberry32 (a + 0x6D2B79F5)), Mulberry32 (a + 0x6D2B79F5 + 0x6D2B79F5))"
    by (subst draw_nonzero.simps) (simp add: rng_next_seeded del: rng_next.simps)
  with z True show ?thesis
    by (subst draw_nonzero.simps) (simp add: rng_next_seeded del: rng_next.simps)
qed

lemma draw_nonzero_seeded_indep:
  "draw_nonzero E1 (Mulberry32 a) = draw_nonzero E2 (Mulberry32 a)"
  by (simp only: draw_nonzero_seeded_eq)

lemma randomGaussian_seeded_indep:
  "randomGaussian M E1 (Mulberry32 a) = randomGaussian M E2 (Mulberry32 a)"
proof -
  obtain u a1 where 1: "draw_nonzero E1 (Mulberry32 a) = Some (u, Mulberry32 a1)"
    using draw_nonzero_seeded by blast
  then have 2: "draw_nonzero E2 (Mulberry32 a) = Some (u, Mulberry32 a1)"
    using draw_nonzero_seeded_indep [of E1 a E2] by simp
  show ?thesis
    by (simp add: randomGaussian_def 1 2 draw_nonzero_seeded_indep [of E1 a1 E2])
qed

lemma for_loop_opt_seeded_indep:
  assumes "\<And>i out a. body1 i (out, Mulberry32 a) = body2 i (out, Mulberry32 a)"
    and "\<And>i out a. \<exists>out' a'. body1 i (out, Mulberry32 a) = Some (out', Mulberry32 a')"
  shows "for_loop_opt n body1 (out0, Mulberry32 a0) = for_loop_opt n body2 (out0, Mulberry32 a0)
         \<and> (\<exists>out a. for_loop_opt n body1 (out0, Mulberry32 a0) = Some (out, Mulberry32 a))"
proof (induction n)
  case 0
  show ?case by (simp add: for_loop_opt_0)
next
  case (Suc n)
  then obtain out a where t1: "for_loop_opt n body1 (out0, Mulberry32 a0) = Some (out, Mulberry32 a)"
    by blast
  with Suc have t2: "for_loop_opt n body2 (out0, Mulberry32 a0) = Some (out, Mulberry32 a)"
    by simp
  note t = t1 t2
  show ?case using assms(1) [of n out a] assms(2) [of n out a] by (simp add: for_loop_opt_Suc t)
qed

lemma fill_white_noise_seeded_indep:
  "fill_white_noise M E1 d n (Mulberry32 a) = fill_white_noise M E2 d n (Mulberry32 a)"
proof (cases "d = gaussian")
  case True
  let ?body = "\<lambda>E (i::nat) (out, g). case randomGaussian M E g of None \<Rightarrow> None
                | Some (x, g') \<Rightarrow> Some (out[i := fround x], g')"
  have "for_loop_opt n (?body E1) (replicate n (Fin 0), Mulberry32 a)
      = for_loop_opt n (?body E2) (replicate n (Fin 0), Mulberry32 a) \<and>
      (\<exists>out a'. for_loop_opt n (?body E1) (replicate n (Fin 0), Mulberry32 a) = Some (out, Mulberry32 a'))"
  proof (rule for_loop_opt_seeded_indep, goal_cases)
    case (1 i out a)
    show ?case by (simp add: randomGaussian_seeded_indep [of M E1 a E2])
  next
    case (2 i out a)
    obtain x a2 where "randomGaussian M E1 (Mulberry32 a) = Some (x, Mulberry32 a2)"
      using randomGaussian_seeded by blast
    then show ?case by simp
  qed
  with True show ?thesis by (simp add: fill_white_noise_def)
next
  case False
  let ?body = "\<lambda>E (i::nat) (out, g). case rng_next E g of (x, g') \<Rightarrow>
            Some (out[i := fround (js_sub (js_mul x (Fin 2)) (Fin 1))], g')"
  have "for_loop_opt n (?body E1) (replicate n (Fin 0), Mulberry32 a)
      = for_loop_opt n (?body E2) (replicate n (Fin 0), Mulberry32 a) \<and>
      (\<exists>out a'. for_loop_opt n (?body E1) (replicate n (Fin 0), Mulberry32 a) = Some (out, Mulberry32 a'))"
    by (rule for_loop_opt_seeded_indep) (simp_all add: rng_next_seeded del: rng_next.simps)
  with False show ?thesis by (simp add: fill_white_noise_def)
qed

lemma shaped_noise_seeded_indep:
  assumes "seed opts \<noteq> None"
  shows "shaped_noise M E1 opts = shaped_noise M E2 opts"
proof -
  from assms obtain s where s: "seed opts = Some s" by auto
  show ?thesis
    unfolding shaped_noise_def s createRng_def option.case
    by (subst fill_white_noise_seeded_indep [of M E1 _ _ _ E2]) (rule refl)
qed

section \<open>Endpoints and silence\<close>

lemma reassert_endpoints_zero:
  assumes "2 \<le> length out"
  shows "reassert_endpoints True out ! 0 = Fin 0"
    and "reassert_endpoints True out ! (length out - 1) = Fin 0"
proof -
  from assms have "out \<noteq> []" by auto
  with assms have l: "0 < length out" "length out - 1 < length out" "1 < length out" by simp_all
  show "reassert_endpoints True out ! 0 = Fin 0"
    using l by (simp add: reassert_endpoints_def Let_def nth_list_update)
  show "reassert_endpoints True out ! (length out - 1) = Fin 0"
    using l by (simp add: reassert_endpoints_def Let_def nth_list_update)
qed


lemma detrendLinearInPlace_endpoints:
  assumes "2 \<le> length data"
  shows "detrendLinearInPlace data ! 0 = Fin 0"
    and "detrendLinearInPlace data ! (length data - 1) = Fin 0"
proof -
  from assms have "data \<noteq> []" by auto
  with assms have l: "0 < length data" "length data - 1 < length data" "\<not> length data < 2" by simp_all
  show "detrendLinearInPlace data ! 0 = Fin 0"
    using l by (simp add: detrendLinearInPlace_def Let_def nth_list_update)
  show "detrendLinearInPlace data ! (length data - 1) = Fin 0"
    using l by (simp add: detrendLinearInPlace_def Let_def nth_list_update)
qed

lemma list_two_zero:
  assumes "length xs = 2" "xs ! 0 = a" "xs ! 1 = b"
  shows "xs = [a, b]"
proof -
  from assms(1) obtain x y where "xs = [x, y]"
    by (cases xs; cases "tl xs") auto
  with assms show ?thesis by simp
qed

subsection \<open>Buffers of zeros\<close>

lemma rd64_0 [simp]: "rd64 0 = Fin 0"
  by (simp add: rd64_def round_to_def)

lemma rd32_0 [simp]: "rd32 0 = Fin 0"
  by (simp add: rd32_def round_to_def)

lemma peak_of_zeros: "peak_of (replicate n (Fin 0)) = Fin 0"
  unfolding peak_of_def
  by (rule for_loop_invariant [where I = "\<lambda>p. p = Fin 0"]) (simp_all add: js_gt_def)

lemma ensure_no_clip_zeros: "ensure_no_clip (replicate n (Fin 0)) = replicate n (Fin 0)"
  by (simp add: ensure_no_clip_def peak_of_zeros js_gt_def)

lemma replicate_update_same: "(replicate n x)[i := x] = replicate n x"
  by (cases "i < n") (simp_all add: list_eq_iff_nth_eq nth_list_update)

lemma reassert_endpoints_zeros:
  "reassert_endpoints ze (replicate n (Fin 0)) = replicate n (Fin 0)"
  by (simp add: reassert_endpoints_def Let_def replicate_update_same)

lemma silence_when_rms_degenerate:
  assumes "\<not> (js_gt (rms M buf) (Fin 0) \<and> isFinite (rms M buf))"
  shows "reassert_endpoints ze (ensure_no_clip (normalize_rms M t buf)) = replicate (length buf) (Fin 0)"
proof -
  have "normalize_rms M t buf = replicate (length buf) (Fin 0)"
    using assms by (auto simp: normalize_rms_def Let_def)
  then show ?thesis by (simp add: ensure_no_clip_zeros reassert_endpoints_zeros)
qed

lemma detrendLinearInPlace_two:
  assumes "length data = 2"
  shows "detrendLinearInPlace data = [Fin 0, Fin 0]"
proof (rule list_two_zero)
  show "length (detrendLinearInPlace data) = 2" using assms by simp
  show "detrendLinearInPlace data ! 0 = Fin 0"
    using detrendLinearInPlace_endpoints(1) [of data] assms by simp
  show "detrendLinearInPlace data ! 1 = Fin 0"
    using detrendLinearInPlace_endpoints(2) [of data] assms by simp
qed

lemma removeMeanInPlace_two_zeros: "removeMeanInPlace [Fin 0, Fin 0] = [Fin 0, Fin 0]"
  by (simp add: removeMeanInPlace_def Let_def for_loop_Suc for_loop_0 num_of_nat_def js_sub_def)

lemma rms_two_zeros: "rms M [Fin 0, Fin 0] = Math_sqrt M (Fin 0)"
  by (simp add: rms_def for_loop_Suc for_loop_0 num_of_nat_def)

lemma generate_two_samples:
  assumes "generateEndpointConstrainedWhiteNoise M E opts = Some (Inr out)"
    and "length out = 2" and "opt_zeroEndpoints opts"
  shows "out = [Fin 0, Fin 0]"
proof -
  from assms(1) obtain buf where
    out: "out = reassert_endpoints (opt_zeroEndpoints opts)
                  (ensure_no_clip (normalize_rms M (opt_targetRmsDbfs opts) buf))"
    by (auto simp: generate_Inr)
  let ?b = "ensure_no_clip (normalize_rms M (opt_targetRmsDbfs opts) buf)"
  have l: "length ?b = 2" using assms(2) out by simp
  show ?thesis
  proof (rule list_two_zero [OF assms(2)])
    show "out ! 0 = Fin 0" using reassert_endpoints_zero(1) [of ?b] l assms(3) out by simp
    show "out ! 1 = Fin 0" using reassert_endpoints_zero(2) [of ?b] l assms(3) out by simp
  qed
qed

lemma shaped_noise_two_samples:
  assumes "shaped_noise M E opts = Some (Inr buf)"
    and "length buf = 2" and "opt_zeroEndpoints opts"
  shows "buf = [Fin 0, Fin 0]"
proof -
  from assms(1) obtain out g where
    f: "fill_white_noise M E (opt_distribution opts) (length buf) (createRng (seed opts)) = Some (out, g)"
    and b: "buf = (if opt_dcRemoval opts then removeMeanInPlace (detrendLinearInPlace out)
                   else detrendLinearInPlace out)"
    using shaped_noise_Inr_length [OF assms(1)] assms(3)
    by (auto simp: shaped_noise_def Let_def split: if_splits option.splits)
  have "length out = 2" using fill_white_noise_length [OF f] assms(2) by simp
  then have "detrendLinearInPlace out = [Fin 0, Fin 0]" by (rule detrendLinearInPlace_two)
  with b show ?thesis by (simp add: removeMeanInPlace_two_zeros)
qed

section \<open>The claims about the generator\<close>

lemma sample_request_simps [simp]:
  "sampleRate sample_request = Fin 16000"
  "sampleCount sample_request = Fin 100"
  "seed sample_request = Some (Fin 7)"
  "opt_zeroEndpoints sample_request"
  "opt_distribution sample_request = uniform"
  "opt_zeroEndpoints (sample_request\<lparr>sampleCount := c\<rparr>)"
  "opt_zeroEndpoints (sample_request\<lparr>sampleRate := r\<rparr>)"
  "opt_distribution (sample_request\<lparr>sampleCount := c\<rparr>) = uniform"
  by (simp_all add: sample_request_def opt_zeroEndpoints_def opt_distribution_def)

lemma js_le_16000 [simp]: "\<not> js_le (Fin 16000) (Fin 0)"
  by (simp add: js_le_def js_eq_def)

lemma generate_seeded_not_None:
  assumes "seed opts \<noteq> None"
  shows "generateEndpointConstrainedWhiteNoise M E opts \<noteq> None"
proof (cases "\<not> isFinite (sampleRate opts) \<or> js_le (sampleRate opts) (Fin 0)")
  case True
  then have "shaped_noise M E opts = Some (Inl SampleRateError)" by (simp add: shaped_noise_Inl)
  then show ?thesis by (simp add: generateEndpointConstrainedWhiteNoise_def)
next
  case False
  show ?thesis
  proof (cases "new_Float32Array_length (Math_max (Fin 0) (Math_floor (sampleCount opts)))")
    case (Inl e)
    with False have "shaped_noise M E opts = Some (Inl e)" by (simp add: shaped_noise_def)
    then show ?thesis by (simp add: generateEndpointConstrainedWhiteNoise_def)
  next
    case (Inr n)
    with False assms generate_returns [of opts n M E] show ?thesis by auto
  qed
qed

text \<open>
  C1.  With \<^verbatim>\<open>zeroEndpoints\<close> true (or left to its default) and a sample count \<open>N \<ge> 2\<close>,
  every returned buffer has \<open>N\<close> samples of which the first and the last are exactly 0,
  whatever the seed, distribution, target level, \<^verbatim>\<open>dcRemoval\<close> flag and \<^verbatim>\<open>Math\<close> library.
  The zeros are assigned, not computed: \<^verbatim>\<open>detrendLinearInPlace\<close> yields them on every
  array of two or more values, including arrays of NaN or infinite values on which the
  subtraction of the ramp would not cancel.
\<close>

theorem endpoints_are_zero:
  assumes "opt_zeroEndpoints opts"
    and "sampleCount opts = num_of_nat N" and "2 \<le> N"
    and "generateEndpointConstrainedWhiteNoise M E opts = Some (Inr out)"
  shows "length out = N \<and> out ! 0 = Fin 0 \<and> out ! (N - 1) = Fin 0
    \<and> (\<forall>data. 2 \<le> length data \<longrightarrow>
          detrendLinearInPlace data ! 0 = Fin 0
          \<and> detrendLinearInPlace data ! (length data - 1) = Fin 0)"
proof -
  have len: "length out = N"
    using generate_Inr_length [OF assms(4)] assms(2) by (simp add: requested_length_nat split: if_splits)
  from assms(4) obtain buf where
    out: "out = reassert_endpoints (opt_zeroEndpoints opts)
                  (ensure_no_clip (normalize_rms M (opt_targetRmsDbfs opts) buf))"
    by (auto simp: generate_Inr)
  let ?b = "ensure_no_clip (normalize_rms M (opt_targetRmsDbfs opts) buf)"
  have l: "2 \<le> length ?b" "length ?b = N" using len assms(3) out by simp_all
  have "out ! 0 = Fin 0" using reassert_endpoints_zero(1) [OF l(1)] assms(1) out by simp
  moreover have "out ! (N - 1) = Fin 0"
    using reassert_endpoints_zero(2) [OF l(1)] assms(1) out l(2) by simp
  ultimately show ?thesis using len detrendLinearInPlace_endpoints by simp
qed

theorem endpoints_are_zero_witness:
  "opt_zeroEndpoints sample_request \<and> sampleCount sample_request = num_of_nat 100 \<and> (2::nat) \<le> 100
   \<and> (\<exists>out. generateEndpointConstrainedWhiteNoise Math_ref entropy_half sample_request = Some (Inr out)
         \<and> length out = 100 \<and> out ! 0 = Fin 0 \<and> out ! 99 = Fin 0)"
proof -
  have c: "sampleCount sample_request = num_of_nat 100" by (simp add: num_of_nat_def)
  have r: "new_Float32Array_length (Math_max (Fin 0) (Math_floor (sampleCount sample_request))) = Inr 100"
    using requested_length_nat [of 100] by (simp add: num_of_nat_def)
  obtain out where
    o: "generateEndpointConstrainedWhiteNoise Math_ref entropy_half sample_request = Some (Inr out)"
    using generate_returns [of sample_request 100 Math_ref entropy_half, OF _ _ r] by auto
  from endpoints_are_zero [of sample_request 100 Math_ref entropy_half out, OF _ c _ o] o c
  show ?thesis by simp
qed




lemma nonpositive_sampleCount_gives_empty_buffer:
  assumes "isFinite (sampleRate opts)" "\<not> js_le (sampleRate opts) (Fin 0)"
    and "sampleCount opts = NaN \<or> sampleCount opts = NegInf \<or> (\<exists>x. sampleCount opts = Fin x \<and> x < 0)"
  shows "generateEndpointConstrainedWhiteNoise M E opts = Some (Inr [])"
proof -
  have n: "new_Float32Array_length (Math_max (Fin 0) (Math_floor (sampleCount opts))) = Inr 0"
    using assms(3) by (auto simp: new_Float32Array_length_def Math_max_def js_trunc_def floor_less_iff)
  have f: "fill_white_noise M E d 0 g = Some ([], g)" for d g
    by (simp add: fill_white_noise_def for_loop_opt_0)
  have "shaped_noise M E opts = Some (Inr [])"
    using assms(1,2) by (simp add: shaped_noise_def n f detrendLinearInPlace_def removeMeanInPlace_def)
  then show ?thesis
    using silence_when_rms_degenerate [of M "[]"]
    by (simp add: generateEndpointConstrainedWhiteNoise_def rms_def js_gt_def)
qed

text \<open>
  C4.  A sample count of \<open>+\<infinity>\<close> is not treated as zero: \<^verbatim>\<open>Math.max(0, Math.floor(Infinity))\<close> is
  \<open>+\<infinity>\<close>, which \<^verbatim>\<open>new Float32Array\<close> rejects with a RangeError.  The other counts the claim
  speaks of (NaN, \<open>-\<infinity>\<close> and the negative numbers) do give the empty buffer.
\<close>

theorem infinite_sampleCount_throws:
  "generateEndpointConstrainedWhiteNoise M E (sample_request\<lparr>sampleCount := PosInf\<rparr>)
     = Some (Inl RangeError)"
  by (simp add: generateEndpointConstrainedWhiteNoise_def shaped_noise_def sample_request_def
      new_Float32Array_length_def Math_max_def)

text \<open>
  C5.  The call throws the sample-rate error exactly when the sample rate is not finite or
  is at most 0.  Nothing else of the request matters then: the error comes before the
  array is allocated, whatever the sample count, and even where generation would not
  return.
\<close>

theorem sampleRate_is_validated:
  "generateEndpointConstrainedWhiteNoise M E opts = Some (Inl SampleRateError)
     \<longleftrightarrow> \<not> isFinite (sampleRate opts) \<or> js_le (sampleRate opts) (Fin 0)"
  by (simp add: generate_Inl shaped_noise_Inl)

theorem sampleRate_is_validated_witness:
  "generateEndpointConstrainedWhiteNoise Math_ref entropy_half (sample_request\<lparr>sampleRate := NaN\<rparr>)
     = Some (Inl SampleRateError)
   \<and> generateEndpointConstrainedWhiteNoise Math_ref entropy_half (sample_request\<lparr>sampleRate := Fin 0\<rparr>)
     = Some (Inl SampleRateError)
   \<and> generateEndpointConstrainedWhiteNoise Math_ref entropy_half sample_request
     \<noteq> Some (Inl SampleRateError)"
  using sampleRate_is_validated [of Math_ref entropy_half "sample_request\<lparr>sampleRate := NaN\<rparr>"]
    sampleRate_is_validated [of Math_ref entropy_half "sample_request\<lparr>sampleRate := Fin 0\<rparr>"]
    sampleRate_is_validated [of Math_ref entropy_half sample_request]
  by (simp add: js_le_def js_eq_def)

text \<open>
  C6.  When the RMS of the buffer that reaches the normalisation step is zero, NaN or
  infinite (that is, not both greater than 0 and finite), the call returns normally and the
  returned buffer consists of zeros only; in particular none of its samples is NaN or
  infinite.
\<close>

theorem degenerate_rms_gives_silence:
  assumes "shaped_noise M E opts = Some (Inr buf)"
    and "\<not> (js_gt (rms M buf) (Fin 0) \<and> isFinite (rms M buf))"
  shows "generateEndpointConstrainedWhiteNoise M E opts = Some (Inr (replicate (length buf) (Fin 0)))
    \<and> (\<forall>x \<in> set (replicate (length buf) (Fin 0)). isFinite x)"
  using assms silence_when_rms_degenerate [OF assms(2)]
  by (simp add: generateEndpointConstrainedWhiteNoise_def)

lemma shaped_noise_sample_two:
  "shaped_noise M E (sample_request\<lparr>sampleCount := Fin 2\<rparr>) = Some (Inr [Fin 0, Fin 0])"
proof -
  let ?r = "sample_request\<lparr>sampleCount := Fin 2\<rparr>"
  have n: "new_Float32Array_length (Math_max (Fin 0) (Math_floor (sampleCount ?r))) = Inr 2"
    using requested_length_nat [of 2] by (simp add: num_of_nat_def)
  have s: "sampleRate ?r = Fin 16000" "seed ?r = Some (Fin 7)" by (simp_all add: sample_request_def)
  obtain buf where b: "shaped_noise M E ?r = Some (Inr buf)"
    using shaped_noise_returns [of ?r 2 M E, OF _ _ n] by (auto simp: s)
  have "length buf = 2" using shaped_noise_Inr_length [OF b] n by simp
  with b shaped_noise_two_samples [OF b] show ?thesis by simp
qed

lemma rms_ref_two_zeros: "rms Math_ref [Fin 0, Fin 0] = Fin 0"
  by (simp add: rms_two_zeros Math_ref_def sqrt_rd64_def)

theorem degenerate_rms_gives_silence_witness:
  "shaped_noise Math_ref entropy_half (sample_request\<lparr>sampleCount := Fin 2\<rparr>) = Some (Inr [Fin 0, Fin 0])
   \<and> \<not> (js_gt (rms Math_ref [Fin 0, Fin 0]) (Fin 0) \<and> isFinite (rms Math_ref [Fin 0, Fin 0]))
   \<and> generateEndpointConstrainedWhiteNoise Math_ref entropy_half (sample_request\<lparr>sampleCount := Fin 2\<rparr>)
       = Some (Inr [Fin 0, Fin 0])"
proof -
  have d: "\<not> (js_gt (rms Math_ref [Fin 0, Fin 0]) (Fin 0) \<and> isFinite (rms Math_ref [Fin 0, Fin 0]))"
    by (simp add: rms_ref_two_zeros js_gt_def)
  from degenerate_rms_gives_silence [OF shaped_noise_sample_two d] shaped_noise_sample_two d
  show ?thesis by (simp add: numeral_2_eq_2)
qed

text \<open>
  C9.  With a seed, the result does not depend on anything but the request and the \<^verbatim>\<open>Math\<close>
  library: two calls agree whatever \<^verbatim>\<open>Math.random\<close> would have returned in each, and
  both return (a buffer or an error).  Equality in the model is equality of the samples as
  numbers; it does not tell \<open>+0\<close> from \<open>-0\<close>.
\<close>

theorem seeded_generation_is_deterministic:
  assumes "seed opts \<noteq> None"
  shows "generateEndpointConstrainedWhiteNoise M E1 opts = generateEndpointConstrainedWhiteNoise M E2 opts
    \<and> generateEndpointConstrainedWhiteNoise M E1 opts \<noteq> None"
  using shaped_noise_seeded_indep [OF assms, of M E1 E2] generate_seeded_not_None [OF assms, of M E1]
  by (simp add: generateEndpointConstrainedWhiteNoise_def)

theorem seeded_generation_is_deterministic_witness:
  "seed sample_request \<noteq> None
   \<and> generateEndpointConstrainedWhiteNoise Math_ref entropy_half sample_request
       = generateEndpointConstrainedWhiteNoise Math_ref (\<lambda>k. Fin 0) sample_request
   \<and> generateEndpointConstrainedWhiteNoise Math_ref entropy_half sample_request \<noteq> None"
proof -
  have s: "seed sample_request \<noteq> None" by simp
  from seeded_generation_is_deterministic [OF s, of Math_ref entropy_half "\<lambda>k. Fin 0"] s
  show ?thesis by blast
qed

text \<open>
  C10.  With a seed, a valid sample rate, a sample count of 2 and \<^verbatim>\<open>zeroEndpoints\<close>, the call
  returns the buffer \<open>[0, 0]\<close>, for either distribution and every seed.  The buffer is
  already \<open>[0, 0]\<close> when it reaches the normalisation step, where its RMS is
  \<^verbatim>\<open>Math.sqrt(0)\<close>; that is 0 in ECMAScript, and then the RMS is not greater than 0 and the
  branch that fills the buffer with zeros is the one taken.
\<close>

theorem two_samples_are_silence:
  assumes "seed opts = Some s"
    and "isFinite (sampleRate opts)" and "\<not> js_le (sampleRate opts) (Fin 0)"
    and "sampleCount opts = Fin 2" and "opt_zeroEndpoints opts"
  shows "generateEndpointConstrainedWhiteNoise M E opts = Some (Inr [Fin 0, Fin 0])
    \<and> shaped_noise M E opts = Some (Inr [Fin 0, Fin 0])
    \<and> (Math_sqrt M (Fin 0) = Fin 0 \<longrightarrow> \<not> js_gt (rms M [Fin 0, Fin 0]) (Fin 0))"
proof -
  have n: "new_Float32Array_length (Math_max (Fin 0) (Math_floor (sampleCount opts))) = Inr 2"
    using requested_length_nat [of 2] assms(4) by (simp add: num_of_nat_def)
  obtain buf where b: "shaped_noise M E opts = Some (Inr buf)"
    using shaped_noise_returns [of opts 2 M E, OF assms(2,3) n] assms(1) by auto
  have "length buf = 2" using shaped_noise_Inr_length [OF b] n by simp
  with shaped_noise_two_samples [OF b] assms(5) have buf: "buf = [Fin 0, Fin 0]" by simp
  obtain out where o: "generateEndpointConstrainedWhiteNoise M E opts = Some (Inr out)"
    using b by (auto simp: generate_Inr)
  have "length out = 2" using generate_Inr_length [OF o] n by simp
  with generate_two_samples [OF o] assms(5) have "out = [Fin 0, Fin 0]" by simp
  with o b buf show ?thesis by (simp add: rms_two_zeros js_gt_def)
qed

theorem two_samples_are_silence_witness:
  "generateEndpointConstrainedWhiteNoise Math_ref entropy_half (sample_request\<lparr>sampleCount := Fin 2\<rparr>)
     = Some (Inr [Fin 0, Fin 0])
   \<and> Math_sqrt Math_ref (Fin 0) = Fin 0
   \<and> \<not> js_gt (rms Math_ref [Fin 0, Fin 0]) (Fin 0)"
proof -
  let ?r = "sample_request\<lparr>sampleCount := Fin 2\<rparr>"
  have h: "seed ?r = Some (Fin 7)" "isFinite (sampleRate ?r)" "\<not> js_le (sampleRate ?r) (Fin 0)"
    "sampleCount ?r = Fin 2" "opt_zeroEndpoints ?r"
    by (simp_all add: sample_request_def opt_zeroEndpoints_def js_le_def js_eq_def)
  have q: "Math_sqrt Math_ref (Fin 0) = Fin 0" by (simp add: Math_ref_def sqrt_rd64_def)
  from two_samples_are_silence [OF h, of Math_ref entropy_half] q show ?thesis by simp
qed

section \<open>Element-wise updates\<close>

lemma for_loop_update_nth:
  assumes "n \<le> length d0"
  shows "\<forall>j < length d0.
    for_loop n (\<lambda>i d. d[i := f i (d ! i)]) d0 ! j = (if j < n then f j (d0 ! j) else d0 ! j)"
  using assms
proof (induction n)
  case 0
  show ?case by (simp add: for_loop_0)
next
  case (Suc n)
  let ?d = "for_loop n (\<lambda>i d. d[i := f i (d ! i)]) d0"
  have l: "length ?d = length d0" by simp
  have IH: "\<forall>j < length d0. ?d ! j = (if j < n then f j (d0 ! j) else d0 ! j)"
    using Suc by simp
  have n: "n < length d0" using Suc.prems by simp
  show ?case
  proof (intro allI impI)
    fix j assume j: "j < length d0"
    show "for_loop (Suc n) (\<lambda>i d. d[i := f i (d ! i)]) d0 ! j
        = (if j < Suc n then f j (d0 ! j) else d0 ! j)"
      using IH j n l by (auto simp: for_loop_Suc nth_list_update less_Suc_eq)
  qed
qed

lemma for_loop_update_map:
  "for_loop (length d0) (\<lambda>i d. d[i := f (d ! i)]) d0 = map f d0"
  using for_loop_update_nth [of "length d0" d0 "\<lambda>i. f"]
  by (simp add: list_eq_iff_nth_eq)

lemma for_loop_fill_map:
  "for_loop (length xs) (\<lambda>i d. d[i := f (xs ! i)]) (replicate (length xs) z) = map f xs"
  using for_loop_update_nth [of "length xs" "replicate (length xs) z" "\<lambda>i _. f (xs ! i)"]
  by (simp add: list_eq_iff_nth_eq)

lemma floatToPCM16_map:
  "floatToPCM16 xs =
     map (\<lambda>s. ucast (to_bits32 (js_mul (Math_max (Fin (- 1)) (Math_min (Fin 1) s)) (Fin 32767)))) xs"
  unfolding floatToPCM16_def Let_def
  by (rule for_loop_fill_map
      [where f = "\<lambda>s. ucast (to_bits32 (js_mul (Math_max (Fin (- 1)) (Math_min (Fin 1) s)) (Fin 32767)))"])

lemma length_floatToPCM16 [simp]: "length (floatToPCM16 xs) = length xs"
  by (simp add: floatToPCM16_map)

section \<open>The shape of rounded values\<close>

lemma round_to_significand_bound:
  assumes "x \<noteq> 0"
  shows "round_half_even (\<bar>x\<bar> / 2 powi (max (ilog2 \<bar>x\<bar>) emin - int p + 1)) \<le> 2 ^ p"
proof (rule round_half_even_le)
  define E where "E = max (ilog2 \<bar>x\<bar>) emin"
  have pos: "0 < \<bar>x\<bar>" using assms by simp
  have "\<bar>x\<bar> < 2 powi (ilog2 \<bar>x\<bar> + 1)" by (rule ilog2_upper [OF pos])
  also have "\<dots> \<le> 2 powi (E + 1)" by (intro power_int_increasing) (simp_all add: E_def)
  finally have "\<bar>x\<bar> / 2 powi (E - int p + 1) \<le> 2 powi (E + 1) / 2 powi (E - int p + 1)"
    by (intro divide_right_mono) simp_all
  also have "\<dots> = 2 powi (int p)" by (simp add: power_int_diff [symmetric])
  also have "\<dots> = of_int (2 ^ p)" by (simp add: power_int_def)
  finally show "\<bar>x\<bar> / 2 powi (max (ilog2 \<bar>x\<bar>) emin - int p + 1) \<le> rat_of_int (2 ^ p)"
    by (simp add: E_def)
qed

lemma round_to_result_form:
  assumes "round_to p emin emax x = Fin y"
  shows "\<exists>m e. y = of_int m * 2 powi e \<and> \<bar>m\<bar> \<le> 2 ^ p \<and> emin - int p + 1 \<le> e"
proof (cases "x = 0")
  case True
  with assms have "y = of_int 0 * 2 powi (emin - int p + 1)" by (simp add: round_to_def)
  then show ?thesis by (intro exI [of _ 0] exI [of _ "emin - int p + 1"]) simp
next
  case False
  define e where "e = max (ilog2 \<bar>x\<bar>) emin - int p + 1"
  define R where "R = round_half_even (\<bar>x\<bar> / 2 powi e)"
  have R: "0 \<le> R" "R \<le> 2 ^ p"
    using round_to_significand_bound [OF False, of emin p]
    by (simp_all add: R_def e_def round_half_even_nonneg)
  from assms False have y: "y = sgn x * (of_int R * 2 powi e)"
    by (simp add: round_to_def Let_def R_def e_def split: if_splits)
  define m where "m = (if 0 < x then R else - R)"
  have "y = of_int m * 2 powi e" using y False by (simp add: m_def sgn_if)
  moreover have "\<bar>m\<bar> \<le> 2 ^ p" using R by (simp add: m_def)
  moreover have "emin - int p + 1 \<le> e" by (simp add: e_def)
  ultimately show ?thesis by blast
qed

lemma round_to_result_bound:
  assumes "round_to p emin emax x = Fin y"
  shows "\<bar>y\<bar> < 2 powi (emax + 1)"
proof (cases "x = 0")
  case True
  with assms show ?thesis by (simp add: round_to_def)
next
  case False
  define e where "e = max (ilog2 \<bar>x\<bar>) emin - int p + 1"
  define R where "R = round_half_even (\<bar>x\<bar> / 2 powi e)"
  have R: "0 \<le> R" by (simp add: R_def round_half_even_nonneg)
  from assms False have y: "y = sgn x * (of_int R * 2 powi e)" and b: "rat_of_int R * 2 powi e < 2 powi (emax + 1)"
    by (simp_all add: round_to_def Let_def R_def e_def split: if_splits)
  have "\<bar>y\<bar> = of_int R * 2 powi e" using R False by (simp add: y abs_mult)
  with b show ?thesis by simp
qed

lemma float32_form:
  assumes "is_float32 (Fin x)"
  shows "\<exists>m e. x = of_int m * 2 powi e \<and> \<bar>m\<bar> \<le> 2 ^ 24 \<and> - 149 \<le> e"
  using round_to_result_form [of 24 "- 126" 127 x x] assms
  by (simp add: is_float32_def rd32_def)

section \<open>The float-to-int16 conversion\<close>

lemma floor_numeral_divide_rat:
  "\<lfloor>(numeral a :: rat) / numeral b\<rfloor> = numeral a div numeral b"
  "\<lfloor>- (numeral a :: rat) / numeral b\<rfloor> = - numeral a div numeral b"
  using floor_divide_of_int_eq [of "numeral a" "numeral b", where ?'a = rat]
    floor_divide_of_int_eq [of "- numeral a" "numeral b", where ?'a = rat]
  by simp_all

lemma clamp_Fin: "Math_max (Fin (- 1)) (Math_min (Fin 1) (Fin x)) = Fin (clamp_unit x)"
  by (auto simp: Math_max_def Math_min_def clamp_unit_def)

lemma rd64_small_int: "\<bar>k\<bar> \<le> 32767 \<Longrightarrow> rd64 (of_int k) = Fin (of_int k)"
  by (rule rd64_of_int) simp

lemma scale_exact:
  assumes "is_float32 (Fin x)"
  shows "rd64 (clamp_unit x * 32767) = Fin (clamp_unit x * 32767)"
proof -
  consider "1 < x" | "x < - 1" | "- 1 \<le> x" "x \<le> 1" by linarith
  then show ?thesis
  proof cases
    case 1
    then have "clamp_unit x = 1" by (simp add: clamp_unit_def)
    then show ?thesis using rd64_small_int [of 32767] by simp
  next
    case 2
    then have "clamp_unit x = - 1" by (simp add: clamp_unit_def)
    then show ?thesis using rd64_small_int [of "- 32767"] by simp
  next
    case 3
    then have c: "clamp_unit x = x" by (simp add: clamp_unit_def)
    from float32_form [OF assms] obtain m e where
      x: "x = of_int m * 2 powi e" and m: "\<bar>m\<bar> \<le> 2 ^ 24" and e: "- 149 \<le> e" by blast
    have "rd64 (x * 32767) = Fin (x * 32767)"
    proof (rule rd64_dyadic [of _ "m * 32767" e])
      show "x * 32767 = rat_of_int (m * 32767) * 2 powi e" by (simp add: x)
      have "\<bar>m * 32767\<bar> = \<bar>m\<bar> * 32767" by (simp add: abs_mult)
      also have "\<dots> \<le> 2 ^ 24 * 32767" using m by simp
      also have "\<dots> < 2 ^ 53" by simp
      finally show "\<bar>m * 32767\<bar> < 2 ^ 53" .
      show "- 1074 \<le> e" using e by simp
      have "\<bar>x * 32767\<bar> \<le> 32767" using 3 by (simp add: abs_mult abs_le_iff)
      also have "(32767::rat) < 2 powi 1024" by simp
      finally show "\<bar>x * 32767\<bar> < 2 powi 1024" .
    qed
    with c show ?thesis by simp
  qed
qed

lemma ucast_word_of_int_32_16: "(ucast (word_of_int k :: 32 word) :: 16 word) = word_of_int k"
  by (rule bit_word_eqI) (auto simp: bit_simps)

lemma pcm16_of_float32:
  assumes "is_float32 s"
  shows "ucast (to_bits32 (js_mul (Math_max (Fin (- 1)) (Math_min (Fin 1) s)) (Fin 32767)))
           = spec_float_to_int16 s"
proof (cases s)
  case (Fin x)
  with assms have "is_float32 (Fin x)" by simp
  from scale_exact [OF this] Fin show ?thesis
    by (simp add: clamp_Fin ucast_word_of_int_32_16)
next
  case NaN
  then show ?thesis by (simp add: Math_max_def Math_min_def)
next
  case PosInf
  then show ?thesis
    using rd64_small_int [of 32767]
    by (simp add: Math_max_def Math_min_def ucast_word_of_int_32_16 js_trunc_def)
next
  case NegInf
  then show ?thesis
    using rd64_small_int [of "- 32767"]
    by (simp add: Math_max_def Math_min_def ucast_word_of_int_32_16 js_trunc_def)
qed

text \<open>
  C8.  On the values a \<^verbatim>\<open>Float32Array\<close> holds, \<^verbatim>\<open>floatToPCM16\<close> is the exact mapping of the
  specification: clamp to \<open>[-1, 1]\<close>, multiply by 32767, truncate toward zero (the product,
  computed in binary64, is exact for a binary32 sample, so no rounding intervenes).  This
  covers the infinities, which become \<open>\<plusminus>32767\<close>, and NaN, which becomes 0.
\<close>

theorem floatToPCM16_is_clamp_scale_truncate:
  assumes "\<forall>s \<in> set samples. is_float32 s"
  shows "floatToPCM16 samples = map spec_float_to_int16 samples"
  using assms by (simp add: floatToPCM16_map pcm16_of_float32)

theorem floatToPCM16_is_clamp_scale_truncate_witness:
  "is_float32 (Fin (1 / 2)) \<and> is_float32 (Fin (- 3)) \<and> is_float32 NaN
   \<and> is_float32 PosInf \<and> is_float32 NegInf
   \<and> floatToPCM16 [Fin (1 / 2), Fin (- 3), NaN, PosInf, NegInf] = [16383, - 32767, 0, 32767, - 32767]"
proof -
  have a: "rd32 (1 / 2) = Fin (1 / 2)"
    unfolding rd32_def by (rule round_to_exact [of _ 1 "- 1"]) (simp_all add: power_int_def)
  have b: "rd32 (- 3) = Fin (- 3)"
    unfolding rd32_def by (rule round_to_exact [of _ "- 3" 0]) (simp_all add: power_int_def)
  have f: "\<forall>s \<in> set [Fin (1 / 2), Fin (- 3), NaN, PosInf, NegInf]. is_float32 s"
    by (simp add: is_float32_def a b)
  from floatToPCM16_is_clamp_scale_truncate [OF f] f show ?thesis
    by (simp add: clamp_unit_def js_trunc_def floor_numeral_divide_rat)
qed

section \<open>The WAV writer\<close>

lemma and_then_Inr [simp]: "and_then (Inr x) f = f x"
  by (simp add: and_then_def)

lemma and_then_Inl [simp]: "and_then (Inl e) f = Inl e"
  by (simp add: and_then_def)

lemma setUint8_append:
  assumes "rest \<noteq> []"
  shows "setUint8 (pre @ rest) (length pre) v = Inr ((pre @ [v]) @ tl rest)"
  using assms by (cases rest) (simp_all add: setUint8_def list_update_append)

lemma setUint16_append:
  assumes "2 \<le> length rest"
  shows "setUint16 (pre @ rest) (length pre) v = Inr ((pre @ le16 v) @ drop 2 rest)"
proof -
  from assms obtain a b r where "rest = a # b # r"
    by (cases rest; cases "tl rest") auto
  then show ?thesis by (simp add: setUint16_def le16_def list_update_append)
qed

lemma setUint32_append:
  assumes "4 \<le> length rest"
  shows "setUint32 (pre @ rest) (length pre) v = Inr ((pre @ le32 v) @ drop 4 rest)"
proof -
  from assms obtain a b c d r where "rest = a # b # c # d # r"
    by (cases rest; cases "tl rest"; cases "tl (tl rest)"; cases "tl (tl (tl rest))") auto
  then show ?thesis by (simp add: setUint32_def le32_def list_update_append)
qed

lemma writeUint32_append:
  assumes "4 \<le> length rest" "off = length pre"
  shows "writeUint32 v (pre @ rest, off) = Inr ((pre @ le32 (to_bits32 v)) @ drop 4 rest, off + 4)"
  using assms by (simp add: writeUint32_def setUint32_append)

lemma writeUint16_append:
  assumes "2 \<le> length rest" "off = length pre"
  shows "writeUint16 v (pre @ rest, off)
    = Inr ((pre @ le16 (ucast (to_bits32 v))) @ drop 2 rest, off + 2)"
  using assms by (simp add: writeUint16_def setUint16_append)

lemma writeString_loop:
  assumes "n \<le> length s" "length s \<le> length rest"
  shows "for_loop n (\<lambda>i r. and_then r (\<lambda>buf. setUint8 buf (length pre + i) (of_char (s ! i))))
           (Inr (pre @ rest))
         = Inr ((pre @ map of_char (take n s)) @ drop n rest)"
  using assms(1)
proof (induction n)
  case 0
  show ?case by (simp add: for_loop_0)
next
  case (Suc n)
  then have n: "n < length s" "n < length rest" using assms(2) by simp_all
  have d: "drop n rest = rest ! n # drop (Suc n) rest" using n by (simp add: Cons_nth_drop_Suc)
  have t: "take (Suc n) s = take n s @ [s ! n]" using n by (simp add: take_Suc_conv_app_nth)
  have l: "length pre + n = length (pre @ map of_char (take n s))" using n by simp
  show ?case
    using Suc n
    apply (simp add: for_loop_Suc del: append_assoc)
    apply (subst l)
    apply (subst setUint8_append)
     apply (simp_all add: d t)
    done
qed

lemma writeString_append:
  assumes "length s \<le> length rest" "off = length pre"
  shows "writeString s (pre @ rest, off)
    = Inr ((pre @ map of_char s) @ drop (length s) rest, off + length s)"
  using writeString_loop [of "length s" s rest pre] assms
  by (simp add: writeString_def)

lemma length_le16 [simp]: "length (le16 v) = 2"
  by (simp add: le16_def)

lemma length_le32 [simp]: "length (le32 v) = 4"
  by (simp add: le32_def)

lemma length_concat_le16 [simp]: "length (concat (map le16 xs)) = 2 * length xs"
  by (induction xs) simp_all

lemma writeUint32_at:
  assumes "off + 4 \<le> length buf"
  shows "writeUint32 v (buf, off) = Inr (take off buf @ le32 (to_bits32 v) @ drop (off + 4) buf, off + 4)"
  using writeUint32_append [of "drop off buf" off "take off buf" v] assms
  by (simp add: add.commute)

lemma writeUint16_at:
  assumes "off + 2 \<le> length buf"
  shows "writeUint16 v (buf, off)
    = Inr (take off buf @ le16 (ucast (to_bits32 v)) @ drop (off + 2) buf, off + 2)"
  using writeUint16_append [of "drop off buf" off "take off buf" v] assms
  by (simp add: add.commute)

lemma writeString_at:
  assumes "off + length s \<le> length buf"
  shows "writeString s (buf, off)
    = Inr (take off buf @ map of_char s @ drop (off + length s) buf, off + length s)"
  using writeString_append [of s "drop off buf" off "take off buf"] assms
  by (simp add: add.commute)

lemma pcm_loop:
  assumes "n \<le> length pcm" "2 * length pcm \<le> length rest"
  shows "for_loop n (\<lambda>i r. and_then r (\<lambda>w.
              and_then (setUint16 (fst w) (snd w) (pcm ! i)) (\<lambda>buf. Inr (buf, snd w + 2))))
           (Inr (pre @ rest, length pre))
         = Inr ((pre @ concat (map le16 (take n pcm))) @ drop (2 * n) rest, length pre + 2 * n)"
  using assms(1)
proof (induction n)
  case 0
  show ?case by (simp add: for_loop_0)
next
  case (Suc n)
  then have n: "n < length pcm" by simp
  have t: "take (Suc n) pcm = take n pcm @ [pcm ! n]" using n by (simp add: take_Suc_conv_app_nth)
  have l: "length pre + 2 * n = length (pre @ concat (map le16 (take n pcm)))" using n by simp
  have r: "2 \<le> length (drop (2 * n) rest)" using n assms(2) by simp
  show ?case
    using Suc n
    apply (simp add: for_loop_Suc del: append_assoc)
    apply (subst l)
    apply (subst setUint16_append [OF r])
    apply (simp add: t add.commute)
    done
qed

subsection \<open>The sizes in the header\<close>

lemma rd64_of_nat: assumes "n < 2 ^ 53" shows "rd64 (of_nat n) = Fin (of_nat n)"
  using rd64_of_int [of "int n"] assms by simp

lemma js_trunc_of_nat [simp]: "js_trunc (of_nat n) = int n"
  by (simp add: js_trunc_def)

lemma wav_sizes:
  assumes "44 + 2 * N \<le> 9007199254740991"
  shows "rd64 (2 * rat_of_nat N) = Fin (2 * rat_of_nat N)"
    and "rd64 (rat_of_nat N * 2) = Fin (2 * rat_of_nat N)"
    and "rd64 (36 + 2 * rat_of_nat N) = Fin (36 + 2 * rat_of_nat N)"
    and "rd64 (44 + 2 * rat_of_nat N) = Fin (44 + 2 * rat_of_nat N)"
    and "js_trunc (44 + 2 * rat_of_nat N) = 44 + 2 * int N"
    and "js_trunc (36 + 2 * rat_of_nat N) = 36 + 2 * int N"
    and "js_trunc (2 * rat_of_nat N) = 2 * int N"
  using rd64_of_nat [of "2 * N"] rd64_of_nat [of "36 + 2 * N"] rd64_of_nat [of "44 + 2 * N"]
    js_trunc_of_nat [of "44 + 2 * N"] js_trunc_of_nat [of "36 + 2 * N"] js_trunc_of_nat [of "2 * N"]
    assms
  by (simp_all add: mult.commute)

lemma js_trunc_numeral [simp]: "js_trunc (numeral k) = numeral k" "js_trunc 1 = 1" "js_trunc 0 = 0"
  by (simp_all add: js_trunc_def)

lemma rd64_16 [simp]: "rd64 16 = Fin 16" and rd64_2 [simp]: "rd64 2 = Fin 2"
  using rd64_of_int [of 16] rd64_of_int [of 2] by simp_all

lemma makeWavBlob_bytes:
  assumes "44 + 2 * length samples \<le> 9007199254740991"
  shows "makeWavBlob samples rate =
     Inr (map of_char ''RIFF'' @ le32 (of_nat (36 + 2 * length samples)) @ map of_char ''WAVE''
          @ map of_char ''fmt '' @ le32 16 @ le16 1 @ le16 1
          @ le32 (to_bits32 rate)
          @ le32 (to_bits32 (js_div (js_mul (js_mul rate (Fin 1)) (Fin 16)) (Fin 8)))
          @ le16 2 @ le16 16
          @ map of_char ''data'' @ le32 (of_nat (2 * length samples))
          @ concat (map le16 (floatToPCM16 samples)))"
proof -
  define N where "N = length samples"
  define pcm where "pcm = floatToPCM16 samples"
  have lp: "length pcm = N" by (simp add: pcm_def N_def)
  define hdr :: "8 word list" where "hdr = map of_char ''RIFF'' @ le32 (of_nat (36 + 2 * N)) @ map of_char ''WAVE''
          @ map of_char ''fmt '' @ le32 16 @ le16 1 @ le16 1
          @ le32 (to_bits32 rate)
          @ le32 (to_bits32 (js_div (js_mul (js_mul rate (Fin 1)) (Fin 16)) (Fin 8)))
          @ le16 2 @ le16 16
          @ map of_char ''data'' @ le32 (of_nat (2 * N))"
  have lh: "length hdr = 44" by (simp add: hdr_def)
  have n: "44 + 2 * N \<le> 9007199254740991" using assms by (simp add: N_def)
  note sz = wav_sizes [OF n]
  have ni: "\<not> 9007199254740947 < 2 * int N" "nat (44 + 2 * int N) - 44 = 2 * N"
    using n by simp_all
  have w1: "writeString ''RIFF'' (replicate (44 + 2 * N) 0, 0)
      = Inr (map of_char ''RIFF'' @ replicate (40 + 2 * N) 0, 4)"
    by (subst writeString_at) simp_all
  have w: "for_loop (length pcm) (\<lambda>i r. and_then r (\<lambda>w.
              and_then (setUint16 (fst w) (snd w) (pcm ! i)) (\<lambda>buf. Inr (buf, snd w + 2))))
           (Inr (hdr @ replicate (2 * N) 0, 44))
         = Inr (hdr @ concat (map le16 pcm), 44 + 2 * N)"
    using pcm_loop [of "length pcm" pcm "replicate (2 * N) 0" hdr] lp lh by simp
  show ?thesis
    using w
    by (simp add: makeWavBlob_def Let_def pcm_def [symmetric] lp N_def [symmetric] sz num_of_nat_def
        writeString_at writeUint32_at writeUint16_at hdr_def ni ucast_word_of_int_32_16)
qed

subsection \<open>Reading the header back\<close>

lemma four_bytes_of_nat:
  fixes x :: nat
  assumes "x < 4294967296"
  shows "x mod 256 + 256 * (x div 256 mod 256) + 65536 * (x div 65536 mod 256)
     + 16777216 * (x div 16777216 mod 256) = x"
proof -
  define a where "a = x div 256"
  define b where "b = a div 256"
  define c where "c = b div 256"
  have x: "x = x mod 256 + 256 * a" by (simp add: a_def)
  have a: "a = a mod 256 + 256 * b" by (simp add: b_def)
  have b: "b = b mod 256 + 256 * c" by (simp add: c_def)
  have b': "b = x div 65536" by (simp add: b_def a_def div_mult2_eq)
  have c': "c = x div 16777216" by (simp add: c_def b' div_mult2_eq)
  have "c < 256" using assms unfolding c' by (simp add: less_mult_imp_div_less)
  then have c: "c mod 256 = c" by simp
  have "x mod 256 + 256 * (a mod 256) + 65536 * (b mod 256) + 16777216 * (c mod 256)
      = x mod 256 + 256 * (a mod 256 + 256 * (b mod 256 + 256 * c))"
    by (simp add: c algebra_simps)
  also have "\<dots> = x" using x a b by simp
  finally show ?thesis by (simp add: a_def [symmetric] b' [symmetric] c' [symmetric])
qed

lemma le32_value:
  fixes w :: "32 word"
  shows "unat (ucast w :: 8 word) + 256 * unat (ucast (drop_bit 8 w) :: 8 word)
     + 65536 * unat (ucast (drop_bit 16 w) :: 8 word)
     + 16777216 * unat (ucast (drop_bit 24 w) :: 8 word) = unat w"
proof -
  have "unat w < 4294967296" using unsigned_less [of w, where ?'a = nat] by simp
  note f = four_bytes_of_nat [OF this]
  have e: "unat (ucast v :: 8 word) = unat v mod 256" for v :: "32 word"
    by (simp add: unsigned_ucast_eq take_bit_eq_mod)
  have d: "unat (drop_bit 8 w) = unat w div 256" "unat (drop_bit 16 w) = unat w div 65536"
    "unat (drop_bit 24 w) = unat w div 16777216"
    unfolding unat_drop_bit_eq by (simp_all add: drop_bit_eq_div)
  show ?thesis unfolding e d by (rule f)
qed

lemma getUint32_le32:
  assumes "length pre = pos"
  shows "getUint32 (pre @ le32 w @ rest) pos = unat w"
  using le32_value [of w] assms [symmetric] by (simp add: getUint32_def le32_def nth_append)

lemma length_makeRawPCMBlob: "length (makeRawPCMBlob samples) = 2 * length samples"
  by (simp add: makeRawPCMBlob_def Let_def le16_def [symmetric])

lemma makeWavBlob_header:
  assumes "44 + 2 * length samples \<le> 9007199254740991"
  shows "\<exists>bytes. makeWavBlob samples rate = Inr bytes
      \<and> length bytes = 44 + 2 * length samples
      \<and> take 4 bytes = map of_char ''RIFF''
      \<and> take 4 (drop 8 bytes) = map of_char ''WAVE''
      \<and> getUint32 bytes 4 = (36 + 2 * length samples) mod 2 ^ 32
      \<and> getUint32 bytes 40 = (2 * length samples) mod 2 ^ 32"
proof -
  let ?c = "of_nat (36 + 2 * length samples) :: 32 word"
  let ?d = "of_nat (2 * length samples) :: 32 word"
  let ?mid = "map of_char ''WAVE''
          @ map of_char ''fmt '' @ le32 16 @ le16 1 @ le16 1
          @ le32 (to_bits32 rate)
          @ le32 (to_bits32 (js_div (js_mul (js_mul rate (Fin 1)) (Fin 16)) (Fin 8)))
          @ le16 2 @ le16 16
          @ map of_char ''data''"
  let ?data = "concat (map le16 (floatToPCM16 samples))"
  let ?bytes = "map of_char ''RIFF'' @ le32 ?c @ ?mid @ le32 ?d @ ?data"
  have b: "makeWavBlob samples rate = Inr ?bytes"
    using makeWavBlob_bytes [OF assms, of rate] by simp
  have "getUint32 ?bytes 4 = unat ?c"
    by (rule getUint32_le32) simp
  moreover have "getUint32 ?bytes 40 = unat ?d"
  proof -
    have "?bytes = (map of_char ''RIFF'' @ le32 ?c @ ?mid) @ le32 ?d @ ?data"
      by (simp only: append_assoc)
    moreover have "getUint32 ((map of_char ''RIFF'' @ le32 ?c @ ?mid) @ le32 ?d @ ?data) 40 = unat ?d"
      by (rule getUint32_le32) simp
    ultimately show ?thesis by (simp only:)
  qed
  moreover have "unat ?c = (36 + 2 * length samples) mod 2 ^ 32" 
    by (simp only: unat_of_nat) simp
  moreover have "unat ?d = (2 * length samples) mod 2 ^ 32"
    by (simp only: unat_of_nat) simp
  moreover have "length ?bytes = 44 + 2 * length samples" by simp
  moreover have "take 4 ?bytes = map of_char ''RIFF''" by simp
  moreover have "take 4 (drop 8 ?bytes) = map of_char ''WAVE''" by simp
  ultimately show ?thesis using b by (intro exI [of _ ?bytes]) (simp only: simp_thms)
qed

subsection \<open>Buffers too long to allocate\<close>

lemma round_half_even_ge: assumes "of_int k \<le> x" shows "k \<le> round_half_even x"
proof -
  have "k \<le> \<lfloor>x\<rfloor>" using assms by (simp add: le_floor_iff)
  then show ?thesis by (auto simp: round_half_even_def Let_def)
qed

lemma rd64_large:
  assumes "2 ^ 53 \<le> x"
  shows "rd64 x = PosInf \<or> (\<exists>y. rd64 x = Fin y \<and> 2 ^ 53 \<le> y)"
proof -
  have x0: "0 < x" using assms by (rule less_le_trans [rotated]) simp
  have "(2::rat) powi 53 \<le> x" using assms by simp
  from ilog2_ge [OF x0 this] have e: "53 \<le> ilog2 x" .
  define u :: rat where "u = 2 powi (ilog2 x - 52)"
  have u0: "0 < u" by (simp add: u_def)
  have ue: "of_int (2 ^ 52) * u = 2 powi (ilog2 x)"
    by (simp add: u_def power_int_diff)
  have "of_int (2 ^ 52) * u \<le> x" unfolding ue by (rule ilog2_lower [OF x0])
  then have "of_int (2 ^ 52) \<le> x / u" using u0 by (simp add: pos_le_divide_eq)
  from round_half_even_ge [OF this] have R: "2 ^ 52 \<le> round_half_even (x / u)" .
  define r where "r = of_int (round_half_even (x / u)) * u"
  have "of_int (2 ^ 52) * u \<le> r" unfolding r_def
  proof (rule mult_right_mono)
    show "rat_of_int (2 ^ 52) \<le> of_int (round_half_even (x / u))" using R unfolding of_int_le_iff .
    show "0 \<le> u" using u0 by simp
  qed
  then have "2 powi (ilog2 x) \<le> r" unfolding ue .
  moreover have "(2::rat) powi 53 \<le> 2 powi (ilog2 x)" using e by (intro power_int_increasing) simp_all
  ultimately have r53: "2 ^ 53 \<le> r" by simp
  have m: "max (ilog2 x) (- 1022) = ilog2 x" using e by simp
  have "rd64 x = (if 2 powi 1024 \<le> r then PosInf else Fin r)"
    using x0 by (simp add: rd64_def round_to_def Let_def m u_def [symmetric] r_def [symmetric])
  then show ?thesis using r53 by auto
qed

lemma to_index_large:
  assumes "v = PosInf \<or> (\<exists>y. v = Fin y \<and> 2 ^ 53 \<le> y)"
  shows "to_index v = Inl RangeError"
proof -
  { fix y :: rat assume "2 ^ 53 \<le> y"
    then have "of_int (2 ^ 53) \<le> y" by simp
    then have "2 ^ 53 \<le> \<lfloor>y\<rfloor>" unfolding le_floor_iff .
    moreover have "0 \<le> y" using \<open>2 ^ 53 \<le> y\<close> by (rule order_trans [rotated]) simp
    ultimately have "9007199254740991 < js_trunc y" by (simp add: js_trunc_def) }
  then show ?thesis using assms by auto
qed

lemma makeWavBlob_too_long:
  assumes "9007199254740991 < 44 + 2 * length samples"
  shows "makeWavBlob samples rate = Inl RangeError"
proof -
  define N where "N = length samples"
  have big: "js_add (Fin 44) (js_mul (num_of_nat N) (Fin 2)) = PosInf
     \<or> (\<exists>y. js_add (Fin 44) (js_mul (num_of_nat N) (Fin 2)) = Fin y \<and> 2 ^ 53 \<le> y)"
  proof (cases "2 * N < 2 ^ 53")
    case True
    have "rd64 (rat_of_nat N * 2) = Fin (of_nat (2 * N))"
      using rd64_of_nat [OF True] by (simp add: mult.commute)
    moreover have "(2::rat) ^ 53 \<le> 44 + of_nat (2 * N)"
    proof -
      have "(2::nat) ^ 53 \<le> 44 + 2 * N" using assms by (simp add: N_def)
      then have "rat_of_nat (2 ^ 53) \<le> of_nat (44 + 2 * N)" unfolding of_nat_le_iff .
      then show ?thesis by simp
    qed
    ultimately show ?thesis using rd64_large [of "44 + of_nat (2 * N)"]
      by (simp add: num_of_nat_def)
  next
    case False
    then have "(2::nat) ^ 53 \<le> 2 * N" by simp
    then have "rat_of_nat (2 ^ 53) \<le> of_nat (2 * N)" unfolding of_nat_le_iff .
    then have l: "(2::rat) ^ 53 \<le> of_nat N * 2" by (simp add: mult.commute)
    from rd64_large [OF l] show ?thesis
    proof
      assume "rd64 (rat_of_nat N * 2) = PosInf"
      then show ?thesis by (simp add: num_of_nat_def)
    next
      assume "\<exists>y. rd64 (rat_of_nat N * 2) = Fin y \<and> 2 ^ 53 \<le> y"
      then obtain y where y: "rd64 (rat_of_nat N * 2) = Fin y" "2 ^ 53 \<le> y" by blast
      then have "2 ^ 53 \<le> 44 + y" by simp
      from rd64_large [OF this] y(1) show ?thesis by (simp add: num_of_nat_def)
    qed
  qed
  show ?thesis
    unfolding makeWavBlob_def Let_def length_floatToPCM16 N_def [symmetric] to_index_large [OF big]
    by simp
qed

lemma makeWavBlob_Inr:
  assumes "makeWavBlob samples rate = Inr bytes"
  shows "length bytes = 44 + 2 * length samples
      \<and> take 4 bytes = map of_char ''RIFF''
      \<and> take 4 (drop 8 bytes) = map of_char ''WAVE''
      \<and> getUint32 bytes 4 = (36 + 2 * length samples) mod 2 ^ 32
      \<and> getUint32 bytes 40 = (2 * length samples) mod 2 ^ 32"
proof (cases "44 + 2 * length samples \<le> 9007199254740991")
  case True
  from makeWavBlob_header [OF True, of rate] assms show ?thesis by auto
next
  case False
  then have "9007199254740991 < 44 + 2 * length samples" by simp
  from makeWavBlob_too_long [OF this, of rate] assms show ?thesis by simp
qed

text \<open>
  C7.  Raw encoding of \<open>N\<close> samples gives \<open>2 N\<close> bytes.  Whatever \<open>N\<close> is, the bytes that WAV
  encoding returns are \<open>44 + 2 N\<close> in number, begin with \<open>RIFF\<close> and carry \<open>WAVE\<close> at offset
  8, and the little-endian 32-bit fields at offsets 4 and 40 hold \<open>36 + 2 N\<close> and \<open>2 N\<close>
  reduced modulo \<open>2 ^ 32\<close>, since they are written by \<^verbatim>\<open>setUint32\<close>.  So the field at offset
  4 is \<open>36 + 2 N\<close> when that is below \<open>2 ^ 32\<close>, and the field at offset 40 is \<open>2 N\<close> when
  that is below \<open>2 ^ 32\<close>; for \<open>N = 2147483630\<close> the field at offset 4 holds 0, not
  \<open>36 + 2 N = 2 ^ 32\<close>.  Bytes are returned whenever \<open>36 + 2 N < 2 ^ 32\<close>.
\<close>

theorem pcm_and_wav_sizes:
  "length (makeRawPCMBlob samples) = 2 * length samples
   \<and> (\<forall>bytes. makeWavBlob samples rate = Inr bytes \<longrightarrow>
        length bytes = 44 + 2 * length samples
        \<and> take 4 bytes = map of_char ''RIFF''
        \<and> take 4 (drop 8 bytes) = map of_char ''WAVE''
        \<and> getUint32 bytes 4 = (36 + 2 * length samples) mod 2 ^ 32
        \<and> getUint32 bytes 40 = (2 * length samples) mod 2 ^ 32
        \<and> (36 + 2 * length samples < 2 ^ 32 \<longrightarrow> getUint32 bytes 4 = 36 + 2 * length samples)
        \<and> (2 * length samples < 2 ^ 32 \<longrightarrow> getUint32 bytes 40 = 2 * length samples))
   \<and> (36 + 2 * length samples < 2 ^ 32 \<longrightarrow> (\<exists>bytes. makeWavBlob samples rate = Inr bytes))"
proof (intro conjI allI impI)
  show "length (makeRawPCMBlob samples) = 2 * length samples" by (rule length_makeRawPCMBlob)
next
  fix bytes assume b: "makeWavBlob samples rate = Inr bytes"
  note h = makeWavBlob_Inr [OF b]
  show "length bytes = 44 + 2 * length samples" using h by (simp only:)
  show "take 4 bytes = map of_char ''RIFF''" using h by (simp only:)
  show "take 4 (drop 8 bytes) = map of_char ''WAVE''" using h by (simp only:)
  show "getUint32 bytes 4 = (36 + 2 * length samples) mod 2 ^ 32" using h by (simp only:)
  show "getUint32 bytes 40 = (2 * length samples) mod 2 ^ 32" using h by (simp only:)
  { assume "36 + 2 * length samples < 2 ^ 32"
    then have "(36 + 2 * length samples) mod 2 ^ 32 = 36 + 2 * length samples" by simp
    then show "getUint32 bytes 4 = 36 + 2 * length samples" using h by (simp only:) }
  { assume "2 * length samples < 2 ^ 32"
    then have "(2 * length samples) mod 2 ^ 32 = 2 * length samples" by simp
    then show "getUint32 bytes 40 = 2 * length samples" using h by (simp only:) }
next
  assume "36 + 2 * length samples < 2 ^ 32"
  then have "44 + 2 * length samples \<le> 9007199254740991" by simp
  from makeWavBlob_header [OF this, of rate] show "\<exists>bytes. makeWavBlob samples rate = Inr bytes"
    by blast
qed

theorem pcm_and_wav_sizes_witness:
  "length (makeRawPCMBlob [Fin (1 / 2), Fin (- 1)]) = 4
   \<and> (\<exists>bytes. makeWavBlob [Fin (1 / 2), Fin (- 1)] (Fin 16000) = Inr bytes
         \<and> length bytes = 48
         \<and> take 4 bytes = map of_char ''RIFF''
         \<and> take 4 (drop 8 bytes) = map of_char ''WAVE''
         \<and> getUint32 bytes 4 = 40 \<and> getUint32 bytes 40 = 4)"
proof -
  let ?s = "[Fin (1 / 2), Fin (- 1)]"
  from pcm_and_wav_sizes [of ?s "Fin 16000"]
  obtain bytes where b: "makeWavBlob ?s (Fin 16000) = Inr bytes" by auto
  with pcm_and_wav_sizes [of ?s "Fin 16000"] show ?thesis by simp
qed

theorem chunkSize_wraps_counterexample:
  "\<not> isl (makeWavBlob (replicate 2147483630 (Fin 0)) (Fin 16000))
   \<and> length (projr (makeWavBlob (replicate 2147483630 (Fin 0)) (Fin 16000))) = 44 + 2 * 2147483630
   \<and> getUint32 (projr (makeWavBlob (replicate 2147483630 (Fin 0)) (Fin 16000))) 4 = 0
   \<and> getUint32 (projr (makeWavBlob (replicate 2147483630 (Fin 0)) (Fin 16000))) 4
       \<noteq> 36 + 2 * length (replicate 2147483630 (Fin 0 :: number))"
proof -
  have "44 + 2 * length (replicate 2147483630 (Fin 0)) \<le> (9007199254740991::nat)" by simp
  from makeWavBlob_header [OF this, of "Fin 16000"] show ?thesis by auto
qed

section \<open>Rounding near 1\<close>

lemma round_half_even_tie_down:
  assumes "of_int K \<le> y" "y \<le> of_int K + 1 / 2" "even K"
  shows "round_half_even y = K"
proof -
  have "\<lfloor>y\<rfloor> = K" using assms(1,2) by (intro floor_unique) simp_all
  then show ?thesis using assms by (auto simp: round_half_even_def Let_def)
qed

lemma round_to_within_unit:
  assumes x: "\<bar>x\<bar> \<le> 1 + 1 / 2 ^ p" and p: "2 \<le> p" and emin: "emin \<le> 0" and emax: "0 \<le> emax"
  shows "\<exists>y. round_to p emin emax x = Fin y \<and> \<bar>y\<bar> \<le> 1"
proof (cases "x = 0")
  case True
  then show ?thesis by (simp add: round_to_def)
next
  case False
  define a where "a = \<bar>x\<bar>"
  define E where "E = max (ilog2 a) emin"
  define u :: rat where "u = 2 powi (E - int p + 1)"
  define R where "R = round_half_even (a / u)"
  have a: "0 < a" using False by (simp add: a_def)
  have u: "0 < u" by (simp add: u_def)
  have R0: "0 \<le> R" using a u by (simp add: R_def round_half_even_nonneg)
  have r: "of_int R * u \<le> 1"
  proof (cases "a < 1")
    case True
    then have "ilog2 a < 0" using ilog2_less [OF a, of 0] by simp
    then have E: "E \<le> 0" using emin by (simp add: E_def)
    define K :: int where "K = 2 ^ nat (int p - 1 - E)"
    have Ku: "of_int K * u = 1"
    proof -
      have "(2::rat) powi (int p - 1 - E) = of_int K" using E p by (simp add: K_def power_int_def)
      then have "of_int K * u = 2 powi (int p - 1 - E) * 2 powi (E - int p + 1)" by (simp add: u_def)
      also have "\<dots> = 2 powi 0" by (simp add: power_int_add [symmetric])
      finally show ?thesis by simp
    qed
    have "a / u \<le> 1 / u" using True u by (simp add: divide_right_mono)
    also have "1 / u = of_int K" using Ku u by (simp add: field_simps)
    finally have "R \<le> K" unfolding R_def by (rule round_half_even_le)
    then have "rat_of_int R * u \<le> of_int K * u" using u by (simp add: mult_right_mono)
    then show ?thesis using Ku by simp
  next
    case False
    then have a1: "1 \<le> a" by simp
    have "a < 2 powi 1"
    proof -
      have "(2::rat) ^ 1 \<le> 2 ^ p" using p by (intro power_increasing) simp_all
      then have "(1::rat) / 2 ^ p \<le> 1 / 2" by (simp add: field_simps)
      with x have "a \<le> 3 / 2" unfolding a_def by linarith
      then show ?thesis by simp
    qed
    then have "ilog2 a < 1" by (rule ilog2_less [OF a])
    moreover have "0 \<le> ilog2 a" using ilog2_ge [OF a, of 0] a1 by simp
    ultimately have E: "E = 0" using emin by (simp add: E_def)
    define K :: int where "K = 2 ^ (p - 1)"
    have Ku: "of_int K * u = 1"
    proof -
      have "(2::rat) powi (int p - 1) = of_int K" using p by (simp add: K_def power_int_def nat_diff_distrib)
      then have "of_int K * u = 2 powi (int p - 1) * 2 powi (0 - int p + 1)" by (simp add: u_def E)
      also have "\<dots> = 2 powi 0" by (simp add: power_int_add [symmetric])
      finally show ?thesis by simp
    qed
    have iu: "1 / u = of_int K" using Ku u by (simp add: field_simps)
    have "even K" using p by (simp add: K_def)
    moreover have "of_int K \<le> a / u" using a1 u iu by (metis divide_right_mono less_imp_le)
    moreover have "a / u \<le> of_int K + 1 / 2"
    proof -
      have "a / u \<le> (1 + 1 / 2 ^ p) / u" using x u by (simp add: a_def divide_right_mono)
      also have "\<dots> = (1 + 1 / 2 ^ p) * (1 / u)" by simp
      also have "\<dots> = (1 + 1 / 2 ^ p) * of_int K" by (simp only: iu)
      also have "\<dots> = of_int K + of_int K / 2 ^ p" by (simp add: algebra_simps)
      also have "rat_of_int K / 2 ^ p = 1 / 2"
      proof -
        have "(2::rat) ^ p = 2 ^ (p - 1) * 2" using p by (cases p) simp_all
        then show ?thesis by (simp add: K_def)
      qed
      finally show ?thesis .
    qed
    ultimately have "R = K" unfolding R_def by (intro round_half_even_tie_down)
    then show ?thesis using Ku by simp
  qed
  have "(1::rat) < 2 powi (emax + 1)" using emax by (intro one_less_power_int) simp_all
  with r have nov: "\<not> 2 powi (emax + 1) \<le> of_int R * u" by simp
  have "round_to p emin emax x = Fin (sgn x * (of_int R * u))"
    using False nov by (simp add: round_to_def Let_def a_def [symmetric] E_def [symmetric]
        u_def [symmetric] R_def [symmetric])
  moreover have "\<bar>sgn x * (of_int R * u)\<bar> \<le> 1"
    using r R0 u False by (simp add: abs_mult)
  ultimately show ?thesis by blast
qed

lemma rd64_within_unit:
  assumes "\<bar>x\<bar> \<le> 1 + 1 / 2 ^ 53"
  shows "\<exists>y. rd64 x = Fin y \<and> \<bar>y\<bar> \<le> 1"
  unfolding rd64_def using assms by (intro round_to_within_unit) simp_all

lemma rd32_within_unit:
  assumes "\<bar>x\<bar> \<le> 1"
  shows "\<exists>y. rd32 x = Fin y \<and> \<bar>y\<bar> \<le> 1"
  unfolding rd32_def using assms by (intro round_to_within_unit) simp_all

lemma rd32_result_bound: "rd32 x = Fin y \<Longrightarrow> \<bar>y\<bar> < 2 powi 128"
  using round_to_result_bound [of 24 "- 126" 127 x y] by (simp add: rd32_def)

text \<open>The reciprocal of a peak above 1, as computed: at most \<open>(1 + 2\<^sup>-\<^sup>5\<^sup>3) / P\<close>.\<close>

lemma rd64_reciprocal:
  assumes P: "1 < P" "P < 2 powi 128"
  shows "\<exists>k. rd64 (1 / P) = Fin k \<and> 0 \<le> k \<and> k * P \<le> 1 + 1 / 2 ^ 53"
proof -
  define x where "x = 1 / P"
  have x: "0 < x" "x < 1" using P by (simp_all add: x_def)
  have "2 powi (- 128) < x"
  proof -
    have "1 / 2 powi 128 < 1 / P" using P by (intro divide_strict_left_mono) simp_all
    moreover have "(2::rat) powi (- 128) = 1 / 2 powi 128"
      by (simp only: power_int_minus inverse_eq_divide)
    ultimately show ?thesis by (simp only: x_def)
  qed
  then have "- 128 \<le> ilog2 x" using ilog2_ge [OF x(1), of "- 128"] by simp
  then have E: "max (ilog2 x) (- 1022) = ilog2 x" by simp
  define u :: rat where "u = 2 powi (ilog2 x - 52)"
  define R where "R = round_half_even (x / u)"
  have u: "0 < u" by (simp add: u_def)
  have R0: "0 \<le> R" using x u by (simp add: R_def round_half_even_nonneg)
  have "u = 2 powi (ilog2 x + (- 52))" by (simp add: u_def)
  also have "\<dots> = 2 powi (ilog2 x) * 2 powi (- 52)" by (rule power_int_add) simp
  also have "\<dots> \<le> x * 2 powi (- 52)" using ilog2_lower [OF x(1)] by (intro mult_right_mono) simp_all
  finally have ux: "u \<le> x * 2 powi (- 52)" .
  have "\<bar>of_int R - x / u\<bar> \<le> 1 / 2" unfolding R_def by (rule round_half_even_error)
  then have "of_int R \<le> x / u + 1 / 2" by linarith
  then have "of_int R * u \<le> (x / u + 1 / 2) * u" using u by (intro mult_right_mono) simp_all
  also have "\<dots> = x + u / 2" using u by (simp add: field_simps)
  also have "\<dots> \<le> x + x * 2 powi (- 52) / 2" using ux by simp
  also have "\<dots> = x * (1 + 1 / 2 ^ 53)" by (simp add: power_int_def algebra_simps power_divide)
  finally have r: "of_int R * u \<le> x * (1 + 1 / 2 ^ 53)" .
  have "x * (1 + 1 / 2 ^ 53) < 1 * 2" using x by (intro mult_strict_mono) simp_all
  also have "(1 * 2 :: rat) \<le> 2 powi 1024" by simp
  finally have nov: "\<not> 2 powi 1024 \<le> of_int R * u" using r by simp
  have "rd64 x = Fin (of_int R * u)"
    using x nov by (simp add: rd64_def round_to_def Let_def E u_def [symmetric] R_def [symmetric])
  moreover have "0 \<le> of_int R * u" using R0 u by simp
  moreover have "of_int R * u * P \<le> 1 + 1 / 2 ^ 53"
  proof -
    have "of_int R * u * P \<le> x * (1 + 1 / 2 ^ 53) * P" using r P by (intro mult_right_mono) simp_all
    also have "\<dots> = 1 + 1 / 2 ^ 53" using P by (simp add: x_def)
    finally show ?thesis .
  qed
  ultimately show ?thesis unfolding x_def by blast
qed

section \<open>Order on numbers\<close>

lemma js_le_trans: "js_le a b \<Longrightarrow> js_le b c \<Longrightarrow> js_le a c"
  by (cases a; cases b; cases c) (auto simp: js_le_def js_eq_def)

lemma js_le_lt_trans: "js_le a b \<Longrightarrow> js_lt b c \<Longrightarrow> js_le a c"
  by (cases a; cases b; cases c) (auto simp: js_le_def js_eq_def)

lemma js_not_lt: "a \<noteq> NaN \<Longrightarrow> b \<noteq> NaN \<Longrightarrow> \<not> js_lt a b \<Longrightarrow> js_le b a"
  by (cases a; cases b) (auto simp: js_le_def js_eq_def)

lemma js_lt_not_NaN: "js_lt a b \<Longrightarrow> a \<noteq> NaN \<and> b \<noteq> NaN"
  by (cases a; cases b) auto

lemma js_le_refl: "a \<noteq> NaN \<Longrightarrow> js_le a a"
  by (simp add: js_le_def js_eq_def)

lemma Math_abs_NaN_iff [simp]: "Math_abs x = NaN \<longleftrightarrow> x = NaN"
  by (cases x) simp_all

section \<open>Clip safety\<close>

lemma for_loop_invariant_indexed:
  assumes "I 0 s" and "\<And>i t. i < n \<Longrightarrow> I i t \<Longrightarrow> I (Suc i) (body i t)"
  shows "I n (for_loop n body s)"
  using assms(2)
proof (induction n)
  case 0
  show ?case by (simp add: for_loop_0 assms(1))
next
  case (Suc n)
  then show ?case by (simp add: for_loop_Suc)
qed

lemma peak_of_properties:
  "peak_of out \<noteq> NaN
   \<and> (peak_of out = Fin 0 \<or> (\<exists>j < length out. peak_of out = Math_abs (out ! j)))
   \<and> (\<forall>j < length out. out ! j = NaN \<or> js_le (Math_abs (out ! j)) (peak_of out))"
proof -
  let ?I = "\<lambda>n p. p \<noteq> NaN
     \<and> (p = Fin 0 \<or> (\<exists>j < n. p = Math_abs (out ! j)))
     \<and> (\<forall>j < n. out ! j = NaN \<or> js_le (Math_abs (out ! j)) p)"
  have "?I (length out) (peak_of out)"
    unfolding peak_of_def
  proof (rule for_loop_invariant_indexed [where I = ?I], goal_cases)
    case 1
    show ?case by simp
  next
    case (2 i p)
    let ?ax = "Math_abs (out ! i)"
    show ?case
    proof (cases "js_gt ?ax p")
      case True
      then have lt: "js_lt p ?ax" by (simp add: js_gt_def)
      then have ax: "?ax \<noteq> NaN" using js_lt_not_NaN by blast
      have "\<forall>j < Suc i. out ! j = NaN \<or> js_le (Math_abs (out ! j)) ?ax"
      proof (intro allI impI)
        fix j assume "j < Suc i"
        then consider "j < i" | "j = i" by linarith
        then show "out ! j = NaN \<or> js_le (Math_abs (out ! j)) ?ax"
        proof cases
          case 1
          with 2 have "out ! j = NaN \<or> js_le (Math_abs (out ! j)) p" by simp
          then show ?thesis using js_le_lt_trans [OF _ lt] by blast
        next
          case 2
          then show ?thesis using ax js_le_refl by simp
        qed
      qed
      with True ax show ?thesis by (auto simp: Let_def)
    next
      case False
      then have nlt: "\<not> js_lt p ?ax" by (simp add: js_gt_def)
      have p: "p \<noteq> NaN" using 2 by simp
      have "\<forall>j < Suc i. out ! j = NaN \<or> js_le (Math_abs (out ! j)) p"
      proof (intro allI impI)
        fix j assume "j < Suc i"
        then consider "j < i" | "j = i" by linarith
        then show "out ! j = NaN \<or> js_le (Math_abs (out ! j)) p"
        proof cases
          case 1
          with 2 show ?thesis by simp
        next
          case 2
          show ?thesis
          proof (cases "out ! i = NaN")
            case True
            with 2 show ?thesis by simp
          next
            case False
            then have "?ax \<noteq> NaN" by simp
            from js_not_lt [OF p this nlt] 2 show ?thesis by simp
          qed
        qed
      qed
      moreover have "p = Fin 0 \<or> (\<exists>j < Suc i. p = Math_abs (out ! j))"
        using 2 less_Suc_eq by auto
      ultimately show ?thesis using False p by (simp add: Let_def)
    qed
  qed
  then show ?thesis by simp
qed

lemma ensure_no_clip_map:
  "ensure_no_clip out =
     (if js_gt (peak_of out) (Fin 1)
      then map (\<lambda>x. fround (js_mul x (js_div (Fin 1) (peak_of out)))) out else out)"
  unfolding ensure_no_clip_def Let_def
  by (simp add: for_loop_update_map [where f = "\<lambda>x. fround (js_mul x (js_div (Fin 1) (peak_of out)))"])

lemma normalize_rms_map:
  "normalize_rms M t out =
     (if js_gt (rms M out) (Fin 0) \<and> isFinite (rms M out)
      then map (\<lambda>x. fround (js_mul x (js_div (Math_pow M (Fin 10) (js_div t (Fin 20))) (rms M out)))) out
      else replicate (length out) (Fin 0))"
  unfolding normalize_rms_def Let_def
  by (simp add: for_loop_update_map
      [where f = "\<lambda>x. fround (js_mul x (js_div (Math_pow M (Fin 10) (js_div t (Fin 20))) (rms M out)))"])

lemma fround_range: "fround v = Fin y \<Longrightarrow> \<bar>y\<bar> < 2 powi 128"
  using rd32_result_bound by (cases v) auto

lemma normalize_rms_range:
  assumes "x \<in> set (normalize_rms M t out)" "x = Fin y"
  shows "\<bar>y\<bar> < 2 powi 128"
  using assms fround_range by (auto simp: normalize_rms_map split: if_splits)

lemma scaled_sample_within_unit:
  assumes "\<bar>q\<bar> \<le> P" "0 \<le> k" "k * P \<le> 1 + 1 / 2 ^ 53"
  shows "\<exists>y. fround (js_mul (Fin q) (Fin k)) = Fin y \<and> \<bar>y\<bar> \<le> 1"
proof -
  have "\<bar>q * k\<bar> = \<bar>q\<bar> * k" using assms(2) by (simp add: abs_mult)
  also have "\<dots> \<le> P * k" using assms(1,2) by (intro mult_right_mono) simp_all
  finally have "\<bar>q * k\<bar> \<le> 1 + 1 / 2 ^ 53" using assms(3) by (simp add: mult.commute)
  from rd64_within_unit [OF this] obtain r where r: "rd64 (q * k) = Fin r" "\<bar>r\<bar> \<le> 1" by blast
  from rd32_within_unit [OF r(2)] obtain y where "rd32 r = Fin y" "\<bar>y\<bar> \<le> 1" by blast
  with r show ?thesis by simp
qed

lemma ensure_no_clip_within_unit:
  assumes range: "\<And>x y. x \<in> set out \<Longrightarrow> x = Fin y \<Longrightarrow> \<bar>y\<bar> < 2 powi 128"
    and x: "x \<in> set (ensure_no_clip out)"
  shows "x = NaN \<or> js_le (Math_abs x) (Fin 1)"
proof -
  let ?p = "peak_of out"
  note pk = peak_of_properties [of out]
  have bound: "v = NaN \<or> js_le (Math_abs v) ?p" if "v \<in> set out" for v
    using that pk by (auto simp: in_set_conv_nth)
  show ?thesis
  proof (cases "js_gt ?p (Fin 1)")
    case False
    then have "x \<in> set out" using x by (simp add: ensure_no_clip_map)
    moreover have "js_le ?p (Fin 1)" using False pk js_not_lt [of "Fin 1" ?p] by (simp add: js_gt_def)
    ultimately show ?thesis using bound js_le_trans by blast
  next
    case True
    then obtain v where v: "v \<in> set out" and xv: "x = fround (js_mul v (js_div (Fin 1) ?p))"
      using x by (auto simp: ensure_no_clip_map)
    from True have "?p \<noteq> Fin 0" by (auto simp: js_gt_def)
    with pk obtain j where j: "j < length out" "?p = Math_abs (out ! j)" by blast
    show ?thesis
    proof (cases ?p)
      case NaN
      with pk show ?thesis by simp
    next
      case NegInf
      with True show ?thesis by (simp add: js_gt_def)
    next
      case PosInf
      then have "js_div (Fin 1) ?p = Fin 0" by simp
      then show ?thesis unfolding xv by (cases v) (simp_all add: signed_inf_def js_le_def js_eq_def)
    next
      case (Fin P)
      with True have P1: "1 < P" by (simp add: js_gt_def)
      from j Fin obtain qj where "out ! j = Fin qj" "\<bar>qj\<bar> = P" by (cases "out ! j") auto
      with range [of "out ! j" qj] j nth_mem [of j out] have P2: "P < 2 powi 128" by simp
      from rd64_reciprocal [OF P1 P2] obtain k where
        k: "rd64 (1 / P) = Fin k" "0 \<le> k" "k * P \<le> 1 + 1 / 2 ^ 53" by blast
      have kk: "js_div (Fin 1) ?p = Fin k" using Fin P1 k by simp
      show ?thesis
      proof (cases v)
        case NaN
        then show ?thesis unfolding xv by simp
      next
        case (Fin q)
        with bound [OF v] \<open>?p = Fin P\<close> have "\<bar>q\<bar> \<le> P" by (auto simp: js_le_def js_eq_def)
        from scaled_sample_within_unit [OF this k(2,3)] Fin show ?thesis
          unfolding xv kk by (auto simp: js_le_def js_eq_def)
      next
        case PosInf
        with bound [OF v] \<open>?p = Fin P\<close> show ?thesis by (simp add: js_le_def js_eq_def)
      next
        case NegInf
        with bound [OF v] \<open>?p = Fin P\<close> show ?thesis by (simp add: js_le_def js_eq_def)
      qed
    qed
  qed
qed

lemma ensure_no_clip_finite:
  assumes range: "\<And>x y. x \<in> set out \<Longrightarrow> x = Fin y \<Longrightarrow> \<bar>y\<bar> < 2 powi 128"
    and fin: "\<And>v. v \<in> set out \<Longrightarrow> isFinite v"
    and x: "x \<in> set (ensure_no_clip out)"
  shows "isFinite x \<and> js_le (Math_abs x) (Fin 1)"
proof -
  let ?p = "peak_of out"
  note pk = peak_of_properties [of out]
  have bound: "v = NaN \<or> js_le (Math_abs v) ?p" if "v \<in> set out" for v
    using that pk by (auto simp: in_set_conv_nth)
  have "isFinite x"
  proof (cases "js_gt ?p (Fin 1)")
    case False
    then have "x \<in> set out" using x by (simp add: ensure_no_clip_map)
    then show ?thesis by (rule fin)
  next
    case True
    then obtain v where v: "v \<in> set out" and xv: "x = fround (js_mul v (js_div (Fin 1) ?p))"
      using x by (auto simp: ensure_no_clip_map)
    from True have "?p \<noteq> Fin 0" by (auto simp: js_gt_def)
    with pk obtain j where j: "j < length out" "?p = Math_abs (out ! j)" by blast
    from fin [OF nth_mem [OF j(1)]] obtain qj where qj: "out ! j = Fin qj" by (cases "out ! j") auto
    define P where "P = \<bar>qj\<bar>"
    have p: "?p = Fin P" using j(2) qj by (simp add: P_def)
    with True have P1: "1 < P" by (simp add: js_gt_def)
    from range [OF nth_mem [OF j(1)] qj] have P2: "P < 2 powi 128" by (simp add: P_def)
    from rd64_reciprocal [OF P1 P2] obtain k where
      k: "rd64 (1 / P) = Fin k" "0 \<le> k" "k * P \<le> 1 + 1 / 2 ^ 53" by blast
    have kk: "js_div (Fin 1) ?p = Fin k" using p P1 k by simp
    from fin [OF v] obtain q where q: "v = Fin q" by (cases v) auto
    with bound [OF v] p have "\<bar>q\<bar> \<le> P" by (auto simp: js_le_def js_eq_def)
    from scaled_sample_within_unit [OF this k(2,3)] q show ?thesis
      unfolding xv kk by auto
  qed
  moreover have "x = NaN \<or> js_le (Math_abs x) (Fin 1)"
    using range x by (rule ensure_no_clip_within_unit)
  ultimately show ?thesis by auto
qed

lemma reassert_endpoints_set:
  "x \<in> set (reassert_endpoints ze out) \<Longrightarrow> x = Fin 0 \<or> x \<in> set out"
  by (auto simp: reassert_endpoints_def Let_def split: if_splits dest!: set_update_subset_insert [THEN subsetD])

lemma samples_nan_or_within_unit:
  assumes "generateEndpointConstrainedWhiteNoise M E opts = Some (Inr out)"
  shows "\<forall>x \<in> set out. x = NaN \<or> js_le (Math_abs x) (Fin 1)"
proof
  fix x assume x: "x \<in> set out"
  from assms obtain buf where
    out: "out = reassert_endpoints (opt_zeroEndpoints opts)
                  (ensure_no_clip (normalize_rms M (opt_targetRmsDbfs opts) buf))"
    by (auto simp: generate_Inr)
  from x reassert_endpoints_set [of x] out
  consider "x = Fin 0" | "x \<in> set (ensure_no_clip (normalize_rms M (opt_targetRmsDbfs opts) buf))"
    by blast
  then show "x = NaN \<or> js_le (Math_abs x) (Fin 1)"
  proof cases
    case 1
    then show ?thesis by (simp add: js_le_def)
  next
    case 2
    then show ?thesis
      by (rule ensure_no_clip_within_unit [rotated]) (rule normalize_rms_range)
  qed
qed

section \<open>Evaluating the reference square root\<close>

lemma ilog2_eqI:
  assumes "0 < x" "2 powi k \<le> x" "x < 2 powi (k + 1)"
  shows "ilog2 x = k"
  using ilog2_ge [OF assms(1,2)] ilog2_less [OF assms(1,3)] by simp

lemma isqrt_correct:
  "0 \<le> n \<Longrightarrow> 0 \<le> isqrt n \<and> isqrt n * isqrt n \<le> n \<and> n < (isqrt n + 1) * (isqrt n + 1)"
proof (induction n rule: isqrt.induct)
  case (1 n)
  show ?case
  proof (cases "n < 1")
    case True
    with 1 have "n = 0" by simp
    then show ?thesis by simp
  next
    case False
    define s where "s = isqrt (n div 4)"
    have "0 \<le> n div 4" using False by simp
    with "1.IH" [OF False] have s: "0 \<le> s" "s * s \<le> n div 4" "n div 4 < (s + 1) * (s + 1)"
      by (simp_all add: s_def)
    have lo: "4 * (s * s) \<le> n" using s(2) by linarith
    have "n div 4 + 1 \<le> (s + 1) * (s + 1)" using s(3) by simp
    then have "n div 4 \<le> s * s + 2 * s" by (simp add: algebra_simps)
    then have hi: "n \<le> 4 * (s * s) + 8 * s + 3" by linarith
    have eq: "isqrt n = (if (2 * s + 1) * (2 * s + 1) \<le> n then 2 * s + 1 else 2 * s)"
      using False by (subst isqrt.simps) (simp add: s_def Let_def)
    show ?thesis
    proof (cases "(2 * s + 1) * (2 * s + 1) \<le> n")
      case True
      then have "isqrt n = 2 * s + 1" using eq by simp
      moreover have "n < (2 * s + 1 + 1) * (2 * s + 1 + 1)" using hi by (simp add: algebra_simps)
      ultimately show ?thesis using True s(1) by simp
    next
      case False
      then have "isqrt n = 2 * s" using eq by simp
      moreover have "2 * s * (2 * s) \<le> n" using lo by simp
      ultimately show ?thesis using False s(1) by simp
    qed
  qed
qed

lemma isqrt_square: assumes "0 \<le> m" shows "isqrt (m * m) = m"
proof -
  define r where "r = isqrt (m * m)"
  have r: "0 \<le> r" "r * r \<le> m * m" "m * m < (r + 1) * (r + 1)"
    using isqrt_correct [of "m * m"] by (simp_all add: r_def)
  have "r \<le> m"
  proof (rule ccontr)
    assume "\<not> r \<le> m"
    then have "m + 1 \<le> r" by simp
    then have "(m + 1) * (m + 1) \<le> r * r" using assms by (intro mult_mono) simp_all
    then have "m * m + 2 * m + 1 \<le> r * r" by (simp add: algebra_simps)
    with r(2) assms show False by linarith
  qed
  moreover have "m \<le> r"
  proof (rule ccontr)
    assume "\<not> m \<le> r"
    then have "r + 1 \<le> m" by simp
    then have "(r + 1) * (r + 1) \<le> m * m" using r(1) by (intro mult_mono) simp_all
    with r(3) show False by simp
  qed
  ultimately show ?thesis by (simp add: r_def)
qed

section \<open>A request with a NaN target level\<close>

lemma mulberry32_7: "mulberry32 7 = (Fin (12567883 / 1073741824), 1831565820)"
  by (simp add: mulberry32_value Let_def)

lemma first_uniform_sample:
  "fround (js_sub (js_mul (Fin (12567883 / 1073741824)) (Fin 2)) (Fin 1)) = Fin (- (8192235 / 8388608))"
proof -
  have a: "rd64 (12567883 / 536870912) = Fin (12567883 / 536870912)"
    by (rule rd64_dyadic [of _ 12567883 "- 29"]) (simp_all add: power_int_def power_divide)
  have b: "rd64 (- (524303029 / 536870912)) = Fin (- (524303029 / 536870912))"
    by (rule rd64_dyadic [of _ "- 524303029" "- 29"]) (simp_all add: power_int_def power_divide)
  have l: "ilog2 (524303029 / 536870912) = - 1"
    by (rule ilog2_eqI) (simp_all add: power_int_def)
  have c: "rd32 (- (524303029 / 536870912)) = Fin (- (8192235 / 8388608))"
    by (simp add: rd32_def round_to_def Let_def l power_int_def power_divide round_half_even_def
        floor_numeral_divide_rat)
  show ?thesis by (simp add: js_sub_def a b c)
qed

lemma rms_of_first_sample:
  "rms Math_ref [Fin (- (8192235 / 8388608))] = Fin (8192235 / 8388608)"
proof -
  let ?q = "67112714295225 / 70368744177664 :: rat"
  have sq: "- (8192235 / 8388608) * - (8192235 / 8388608) = ?q" by simp
  have a: "rd64 ?q = Fin ?q"
    by (rule rd64_dyadic [of _ 67112714295225 "- 46"]) (simp_all add: power_int_def power_divide)
  have l: "ilog2 ?q = - 1"
    by (rule ilog2_eqI) (simp_all add: power_int_def)
  have y: "?q * 4 powi 61 = of_int (2251864409993379840 * 2251864409993379840)"
    by (simp add: power_int_def)
  have i: "isqrt (2251864409993379840 * 2251864409993379840) = 2251864409993379840"
    by (rule isqrt_square) simp
  have r: "rd64 (8192235 / 8388608) = Fin (8192235 / 8388608)"
    by (rule rd64_dyadic [of _ 8192235 "- 23"]) (simp_all add: power_int_def power_divide)
  have "sqrt_rd64 ?q = Fin (8192235 / 8388608)"
  proof -
    have k: "60 - (- 1) div 2 = (61::int)" by simp
    show ?thesis
      unfolding sqrt_rd64_def l Let_def k y floor_of_int i
      by (simp add: power_int_def power_divide r)
  qed
  then show ?thesis
    by (simp add: rms_def for_loop_Suc for_loop_0 num_of_nat_def Math_ref_def a)
qed

lemma shaped_noise_nan_target_request:
  "shaped_noise M E nan_target_request = Some (Inr [Fin (- (8192235 / 8388608))])"
proof -
  have n: "new_Float32Array_length (Math_max (Fin 0) (Fin 1)) = Inr 1"
    by (simp add: new_Float32Array_length_def Math_max_def)
  have f: "fill_white_noise M E uniform (Suc 0) (Mulberry32 7)
      = Some ([Fin (- (8192235 / 8388608))], Mulberry32 1831565820)"
    unfolding fill_white_noise_def
    by (simp add: for_loop_opt_Suc for_loop_opt_0 mulberry32_7 first_uniform_sample
        del: js_mul.simps)
  show ?thesis
    by (simp add: shaped_noise_def nan_target_request_def js_le_def js_eq_def n createRng_def
        opt_distribution_def opt_zeroEndpoints_def opt_dcRemoval_def f)
qed

lemma generate_nan_target_request:
  "generateEndpointConstrainedWhiteNoise Math_ref E nan_target_request = Some (Inr [NaN])"
proof -
  have t: "opt_targetRmsDbfs nan_target_request = NaN" "\<not> opt_zeroEndpoints nan_target_request"
    by (simp_all add: opt_targetRmsDbfs_def opt_zeroEndpoints_def nan_target_request_def)
  have pw: "Math_pow Math_ref (Fin 10) NaN = NaN"
    by (simp add: Math_ref_def)
  have n: "normalize_rms Math_ref NaN [Fin (- (8192235 / 8388608))] = [NaN]"
    by (simp add: normalize_rms_map rms_of_first_sample js_gt_def pw)
  have p: "peak_of [NaN] = Fin 0"
    by (simp add: peak_of_def for_loop_Suc for_loop_0 js_gt_def)
  have c: "ensure_no_clip [NaN] = [NaN]"
    by (simp add: ensure_no_clip_map p js_gt_def)
  show ?thesis
    by (simp add: generateEndpointConstrainedWhiteNoise_def shaped_noise_nan_target_request t n c
        reassert_endpoints_def)
qed

section \<open>A request that triggers the clip step\<close>

lemma rd32_dyadic:
  assumes "x = of_int m * 2 powi e" "\<bar>m\<bar> < 2 ^ 24" "- 149 \<le> e" "\<bar>x\<bar> < 2 powi 128"
  shows "rd32 x = Fin x"
  unfolding rd32_def using assms by (intro round_to_exact [of x m e]) simp_all

lemma shaped_noise_loud_request:
  "shaped_noise M E loud_request = Some (Inr [Fin (- (8192235 / 8388608))])"
proof -
  have n: "new_Float32Array_length (Math_max (Fin 0) (Fin 1)) = Inr 1"
    by (simp add: new_Float32Array_length_def Math_max_def)
  have f: "fill_white_noise M E uniform (Suc 0) (Mulberry32 7)
      = Some ([Fin (- (8192235 / 8388608))], Mulberry32 1831565820)"
    unfolding fill_white_noise_def
    by (simp add: for_loop_opt_Suc for_loop_opt_0 mulberry32_7 first_uniform_sample
        del: js_mul.simps)
  show ?thesis
    by (simp add: shaped_noise_def loud_request_def js_le_def js_eq_def n createRng_def
        opt_distribution_def opt_zeroEndpoints_def opt_dcRemoval_def f)
qed

lemma loud_target: "Math_pow Math_ref (Fin 10) (js_div (Fin 20) (Fin 20)) = Fin 10"
proof -
  have a: "rd64 1 = Fin 1" using rd64_of_int [of 1] by simp
  have b: "rd64 10 = Fin 10" using rd64_of_int [of 10] by simp
  show ?thesis by (simp add: Math_ref_def a b)
qed

lemma loud_gain:
  "js_div (Fin 10) (Fin (8192235 / 8388608)) = Fin (5764442161229073 / 562949953421312)"
proof -
  have l: "ilog2 (16777216 / 1638447) = 3"
    by (rule ilog2_eqI) (simp_all add: power_int_def)
  have "rd64 (16777216 / 1638447) = Fin (5764442161229073 / 562949953421312)"
    by (simp add: rd64_def round_to_def Let_def l power_int_def power_divide round_half_even_def
        floor_numeral_divide_rat)
  then show ?thesis by simp
qed

lemma loud_scaled:
  "fround (js_mul (Fin (- (8192235 / 8388608))) (Fin (5764442161229073 / 562949953421312))) = Fin (- 10)"
proof -
  let ?x = "47223664828696454848155 / 4722366482869645213696 :: rat"
  have l: "ilog2 ?x = 3"
    by (rule ilog2_eqI) (simp_all add: power_int_def)
  have a: "rd64 (- ?x) = Fin (- 10)"
    by (simp add: rd64_def round_to_def Let_def l power_int_def power_divide round_half_even_def
        floor_numeral_divide_rat)
  have b: "rd32 (- 10) = Fin (- 10)"
    by (rule rd32_dyadic [of _ "- 10" 0]) simp_all
  show ?thesis by (simp add: a b)
qed

lemma loud_normalized:
  "normalize_rms Math_ref (Fin 20) [Fin (- (8192235 / 8388608))] = [Fin (- 10)]"
  unfolding normalize_rms_map rms_of_first_sample loud_target loud_gain
  by (simp add: js_gt_def loud_scaled del: js_mul.simps)

lemma loud_reciprocal: "js_div (Fin 1) (Fin 10) = Fin (3602879701896397 / 36028797018963968)"
proof -
  have l: "ilog2 (1 / 10) = - 4"
    by (rule ilog2_eqI) (simp_all add: power_int_def power_divide)
  have "rd64 (1 / 10) = Fin (3602879701896397 / 36028797018963968)"
    by (simp add: rd64_def round_to_def Let_def l power_int_def power_divide round_half_even_def
        floor_numeral_divide_rat)
  then show ?thesis by simp
qed

lemma loud_rescaled:
  "fround (js_mul (Fin (- 10)) (Fin (3602879701896397 / 36028797018963968))) = Fin (- 1)"
proof -
  let ?x = "18014398509481985 / 18014398509481984 :: rat"
  have l: "ilog2 ?x = 0"
    by (rule ilog2_eqI) (simp_all add: power_int_def)
  have a: "rd64 (- ?x) = Fin (- 1)"
    by (simp add: rd64_def round_to_def Let_def l power_int_def power_divide round_half_even_def
        floor_numeral_divide_rat)
  have b: "rd32 (- 1) = Fin (- 1)"
    by (rule rd32_dyadic [of _ "- 1" 0]) simp_all
  show ?thesis by (simp add: a b)
qed

lemma loud_clipped: "ensure_no_clip [Fin (- 10)] = [Fin (- 1)]"
proof -
  have p: "peak_of [Fin (- 10)] = Fin 10"
    by (simp add: peak_of_def for_loop_Suc for_loop_0 js_gt_def)
  show ?thesis
    unfolding ensure_no_clip_map p loud_reciprocal
    by (simp add: js_gt_def loud_rescaled del: js_mul.simps)
qed

lemma loud_request_simps:
  "opt_targetRmsDbfs loud_request = Fin 20" "\<not> opt_zeroEndpoints loud_request"
  by (simp_all add: opt_targetRmsDbfs_def opt_zeroEndpoints_def loud_request_def)

lemma generate_loud_request:
  "generateEndpointConstrainedWhiteNoise Math_ref E loud_request = Some (Inr [Fin (- 1)])"
  by (simp add: generateEndpointConstrainedWhiteNoise_def shaped_noise_loud_request
      loud_request_simps loud_normalized loud_clipped reassert_endpoints_def)

text \<open>
  C3.  Whenever every sample is finite after the RMS scaling of step 4, every sample of
  the returned buffer is finite and has absolute value at most 1, for every request,
  \<^verbatim>\<open>Math\<close> library and random source: if the peak \<open>P\<close> exceeds 1 each sample is multiplied
  by the binary64 reciprocal of \<open>P\<close>, and the product, rounded to binary64 and then to
  binary32, is at most 1 in magnitude.  The claim as it stands, for any request
  parameters, fails on a request whose target level is NaN: the gain is NaN, every scaled
  sample is NaN, and the peak search passes over NaN, since every comparison with NaN is
  false.
\<close>

theorem no_sample_beyond_full_scale:
  assumes "shaped_noise M E opts = Some (Inr buf)"
    and "\<forall>x \<in> set (normalize_rms M (opt_targetRmsDbfs opts) buf). isFinite x"
  shows "\<exists>out. generateEndpointConstrainedWhiteNoise M E opts = Some (Inr out)
      \<and> (\<forall>x \<in> set out. isFinite x \<and> js_le (Math_abs x) (Fin 1))"
proof -
  let ?scaled = "normalize_rms M (opt_targetRmsDbfs opts) buf"
  let ?out = "reassert_endpoints (opt_zeroEndpoints opts) (ensure_no_clip ?scaled)"
  have "generateEndpointConstrainedWhiteNoise M E opts = Some (Inr ?out)"
    using assms(1) by (simp add: generateEndpointConstrainedWhiteNoise_def)
  moreover have "isFinite x \<and> js_le (Math_abs x) (Fin 1)" if "x \<in> set ?out" for x
  proof -
    from that reassert_endpoints_set [of x]
    consider "x = Fin 0" | "x \<in> set (ensure_no_clip ?scaled)" by blast
    then show ?thesis
    proof cases
      case 1
      then show ?thesis by (simp add: js_le_def)
    next
      case 2
      show ?thesis
      proof (rule ensure_no_clip_finite [OF _ _ 2])
        show "\<And>x y. x \<in> set ?scaled \<Longrightarrow> x = Fin y \<Longrightarrow> \<bar>y\<bar> < 2 powi 128"
          by (rule normalize_rms_range)
        show "\<And>v. v \<in> set ?scaled \<Longrightarrow> isFinite v" using assms(2) by blast
      qed
    qed
  qed
  ultimately show ?thesis by blast
qed

theorem no_sample_beyond_full_scale_witness:
  "shaped_noise Math_ref entropy_half loud_request = Some (Inr [Fin (- (8192235 / 8388608))])
   \<and> normalize_rms Math_ref (opt_targetRmsDbfs loud_request) [Fin (- (8192235 / 8388608))] = [Fin (- 10)]
   \<and> js_gt (peak_of [Fin (- 10)]) (Fin 1)
   \<and> generateEndpointConstrainedWhiteNoise Math_ref entropy_half loud_request = Some (Inr [Fin (- 1)])
   \<and> isFinite (Fin (- 1)) \<and> js_le (Math_abs (Fin (- 1))) (Fin 1)"
proof -
  note s = shaped_noise_loud_request [of Math_ref entropy_half]
  have n: "normalize_rms Math_ref (opt_targetRmsDbfs loud_request) [Fin (- (8192235 / 8388608))] = [Fin (- 10)]"
    by (simp only: loud_request_simps loud_normalized)
  have f: "\<forall>x \<in> set (normalize_rms Math_ref (opt_targetRmsDbfs loud_request) [Fin (- (8192235 / 8388608))]).
      isFinite x"
    unfolding n by simp
  have p: "js_gt (peak_of [Fin (- 10)]) (Fin 1)"
    by (simp add: peak_of_def for_loop_Suc for_loop_0 js_gt_def)
  from no_sample_beyond_full_scale [OF s f] generate_loud_request [of entropy_half]
  have "isFinite (Fin (- 1)) \<and> js_le (Math_abs (Fin (- 1))) (Fin 1)" by simp
  with s n p generate_loud_request [of entropy_half] show ?thesis by (simp only: simp_thms)
qed

theorem nan_target_counterexample:
  "generateEndpointConstrainedWhiteNoise Math_ref entropy_half nan_target_request = Some (Inr [NaN])
   \<and> \<not> js_le (Math_abs NaN) (Fin 1)"
  by (simp add: generate_nan_target_request js_le_def js_eq_def)

end
